theory Spec2Isabelle
  imports Complex_Main "HOL-Library.Word" "HOL-Library.Multiset"
begin

unbundle bit_operations_syntax

section \<open>Data model of ntree.go and point.go\<close>

text \<open>
  Go's \<open>float64\<close> coordinates are modelled as \<open>real\<close>: rounding, underflow, infinities
  and NaN are outside the model. Go's \<open>int\<close> is the 64-bit two's complement word (the
  library's own comment on \<open>MaxN\<close> assumes 64-bit ints); \<open>uint64\<close> is the same word type
  read unsigned. Pointers that may be nil are options.
\<close>

type_synonym float64 = real
type_synonym go_int = "64 word"
type_synonym uint64 = "64 word"

text \<open>\<open>type Point struct { Coords []float64; Data *interface{} }\<close>; the payload is an
  opaque reference.\<close>

datatype Point = Point (Coords: "float64 list") (Data: "nat option")

text \<open>\<open>type NTree struct { center, bounds []float64; p *Point; children []*NTree;
  mutex sync.RWMutex; count uint64 }\<close>. A nil \<open>children\<close> slice is \<open>None\<close>; the entries
  of an allocated slice are pointers and may be nil themselves. The mutex carries no data;
  its acquisitions are modelled as events further below.\<close>

datatype NTree =
  NTree (center: "float64 list") (bounds: "float64 list") (p: "Point option")
        (children: "NTree option list option") (count: uint64)

text \<open>The values built by \<open>errors.New\<close>, one constructor per message.\<close>

datatype error =
    TooManyDimensions     \<comment> \<open>"64 bit ints limit this library to <= 63 dimensions"\<close>
  | MismatchedLengths     \<comment> \<open>"center and bounds have mismatched lengths"\<close>
  | ZeroDimensional       \<comment> \<open>"Can't have 0-dimensional ntree"\<close>
  | BoundingSize nat      \<comment> \<open>"Dimension i has bounding size <= 0."\<close>
  | PointIsNil            \<comment> \<open>"Point is nil"\<close>
  | PointDimension nat nat \<comment> \<open>"Point is k dimensional, NTree is n"\<close>
  | OutsideBounds         \<comment> \<open>"Point doesn't fall within bounds of NTree."\<close>
  | SearchDimension       \<comment> \<open>"Bounding points have different dimensions than tree."\<close>

text \<open>A call returns, panics (index out of range, nil dereference), or is cut off when
  the recursion budget of the model is used up (the Go call would still be running).\<close>

datatype 'a outcome = Returns 'a | Panics | OutOfFuel

section \<open>Construction\<close>

definition MaxN :: nat where
  "MaxN = 63"

text \<open>The loop \<open>for i := range bounds { if bounds[i] <= 0 { return nil, error(i) } }\<close>:
  the index of the first non-positive entry, counting from \<open>i\<close>.\<close>

fun first_nonpositive :: "nat \<Rightarrow> float64 list \<Rightarrow> nat option" where
  "first_nonpositive i [] = None"
| "first_nonpositive i (b # bs) = (if b \<le> 0 then Some i else first_nonpositive (Suc i) bs)"

definition New :: "float64 list \<Rightarrow> float64 list \<Rightarrow> error + NTree" where
  "New cs bs =
     (if length cs > MaxN then Inl TooManyDimensions
      else if length cs \<noteq> length bs then Inl MismatchedLengths
      else if length cs = 0 then Inl ZeroDimensional
      else case first_nonpositive 0 bs of
             Some i \<Rightarrow> Inl (BoundingSize i)
           | None \<Rightarrow> Inr (NTree cs bs None None 0))"

definition N :: "NTree \<Rightarrow> nat" where
  "N nt = length (center nt)"

definition Count :: "NTree \<Rightarrow> uint64" where
  "Count nt = count nt"

section \<open>Containment\<close>

text \<open>The loop of \<open>Contains\<close> over \<open>i := range p.Coords\<close>, reading \<open>nt.center[i]\<close>,
  \<open>nt.bounds[i]\<close> and \<open>p.Coords[i]\<close> in step; an index past the end of \<open>center\<close> or
  \<open>bounds\<close> panics.\<close>

fun contains_loop :: "float64 list \<Rightarrow> float64 list \<Rightarrow> float64 list \<Rightarrow> bool outcome" where
  "contains_loop cs bs [] = Returns True"
| "contains_loop (c # cs) (b # bs) (x # xs) =
     (if c - b > x \<or> c + b < x then Returns False else contains_loop cs bs xs)"
| "contains_loop cs bs (x # xs) = Panics"

fun Contains :: "NTree \<Rightarrow> Point option \<Rightarrow> (error + bool) outcome" where
  "Contains nt None = Returns (Inl PointIsNil)"
| "Contains nt (Some q) =
     (if length (Coords q) \<noteq> N nt
      then Returns (Inl (PointDimension (length (Coords q)) (N nt)))
      else case contains_loop (center nt) (bounds nt) (Coords q) of
             Returns b \<Rightarrow> Returns (Inr b)
           | Panics \<Rightarrow> Panics
           | OutOfFuel \<Rightarrow> OutOfFuel)"

section \<open>Insertion\<close>

text \<open>\<open>hasBit\<close> and \<open>setBit\<close> work on Go's signed \<open>int\<close>; \<open>val > 0\<close> is a signed
  comparison, and a shift by 64 or more gives 0.\<close>

definition hasBit :: "go_int \<Rightarrow> nat \<Rightarrow> bool" where
  "hasBit n pos = (0 <s (n AND push_bit pos 1))"

definition setBit :: "go_int \<Rightarrow> nat \<Rightarrow> go_int" where
  "setBit n pos = n OR push_bit pos 1"

text \<open>The addressing loop of \<open>Add\<close>: \<open>for j := range nt.center { if p.Coords[j] >
  nt.center[j] { target = setBit(target, uint(j)) } }\<close>, from dimension \<open>j\<close> on with the
  remaining centre and point coordinates.\<close>

fun target_loop :: "nat \<Rightarrow> float64 list \<Rightarrow> float64 list \<Rightarrow> go_int \<Rightarrow> go_int outcome" where
  "target_loop j [] xs t = Returns t"
| "target_loop j (c # cs) [] t = Panics"
| "target_loop j (c # cs) (x # xs) t =
     target_loop (Suc j) cs xs (if x > c then setBit t j else t)"

text \<open>The geometry loop of the split for child \<open>i\<close>: \<open>bounds[j] = nt.bounds[j] / 2.0\<close>
  and \<open>center[j] = nt.center[j] + bounds[j]\<close> when bit \<open>j\<close> of \<open>i\<close> is set, \<open>-\<close>
  otherwise, for \<open>j\<close> over \<open>range center\<close> (of length \<open>nt.N()\<close>).\<close>

fun child_box :: "go_int \<Rightarrow> nat \<Rightarrow> float64 list \<Rightarrow> float64 list
    \<Rightarrow> (float64 list \<times> float64 list) outcome" where
  "child_box i j [] bs = Returns ([], [])"
| "child_box i j (c # cs) [] = Panics"
| "child_box i j (c # cs) (b # bs) =
     (case child_box i (Suc j) cs bs of
        Returns (cs', bs') \<Rightarrow>
          Returns ((if hasBit i j then c + b / 2 else c - b / 2) # cs', (b / 2) # bs')
      | Panics \<Rightarrow> Panics
      | OutOfFuel \<Rightarrow> OutOfFuel)"

text \<open>\<open>mathutil.ModPowUint64(b, e, m)\<close> of the imported library computes \<open>(b^e) % m\<close>;
  \<open>mathutil.MaxInt\<close> is the largest \<open>int\<close>.\<close>

definition ModPowUint64 :: "uint64 \<Rightarrow> uint64 \<Rightarrow> uint64 \<Rightarrow> uint64" where
  "ModPowUint64 b e m = word_of_int ((uint b ^ unat e) mod uint m)"

definition MaxInt :: uint64 where
  "MaxInt = 2 ^ 63 - 1"

text \<open>The loop \<open>for i := range nt.children\<close> of the split, over the remaining indices:
  each child is built by \<open>New\<close> and stored at its index; the first construction error
  ends the loop with the slice as filled so far.\<close>

fun split_loop :: "NTree \<Rightarrow> nat list \<Rightarrow> NTree option list
    \<Rightarrow> (NTree option list \<times> error option) outcome" where
  "split_loop nt [] ch = Returns (ch, None)"
| "split_loop nt (i # is) ch =
     (case child_box (of_nat i) 0 (center nt) (bounds nt) of
        Returns (cs, bs) \<Rightarrow>
          (case New cs bs of
             Inl e \<Rightarrow> Returns (ch, Some e)
           | Inr child \<Rightarrow> split_loop nt is (ch[i := Some child]))
      | Panics \<Rightarrow> Panics
      | OutOfFuel \<Rightarrow> OutOfFuel)"

text \<open>The part of the occupied-leaf branch of \<open>Add\<close> that runs under the node's lock
  (from \<open>size := ...\<close> to \<open>nt.mutex.Unlock()\<close>): \<open>nt.children\<close> is assigned the fresh slice
  before the loop; on a construction error the function returns at once; otherwise the
  node's point is cleared and its count decremented.\<close>

definition split :: "NTree \<Rightarrow> (NTree \<times> error option) outcome" where
  "split nt =
     (let size = unat (ModPowUint64 2 (of_nat (N nt)) MaxInt) in
      case split_loop nt [0..<size] (replicate size None) of
        Returns (ch, Some e) \<Rightarrow>
          Returns (NTree (center nt) (bounds nt) (p nt) (Some ch) (count nt), Some e)
      | Returns (ch, None) \<Rightarrow>
          Returns (NTree (center nt) (bounds nt) None (Some ch) (count nt - 1), None)
      | Panics \<Rightarrow> Panics
      | OutOfFuel \<Rightarrow> OutOfFuel)"

text \<open>\<open>Add\<close> mutates the receiver; the model returns the node after the call together
  with the error value. Each recursive call of \<open>Add\<close> takes one unit of fuel; validation
  and the three branches follow the source's order.\<close>

fun Add :: "nat \<Rightarrow> NTree \<Rightarrow> Point option \<Rightarrow> (NTree \<times> error option) outcome" where
  "Add fuel nt pt =
     (case Contains nt pt of
        Panics \<Rightarrow> Panics
      | OutOfFuel \<Rightarrow> OutOfFuel
      | Returns (Inl e) \<Rightarrow> Returns (nt, Some e)
      | Returns (Inr False) \<Rightarrow> Returns (nt, Some OutsideBounds)
      | Returns (Inr True) \<Rightarrow>
          if p nt = None \<and> children nt = None
          then Returns (NTree (center nt) (bounds nt) pt None (count nt + 1), None)
          else
            (case children nt of
               Some ch \<Rightarrow>
                 (case pt of
                    None \<Rightarrow> Panics
                  | Some q \<Rightarrow>
                      (case target_loop 0 (center nt) (Coords q) 0 of
                         Returns target \<Rightarrow>
                           if target <s 0 \<or> length ch \<le> unat target then Panics
                           else
                             (case ch ! unat target of
                                None \<Rightarrow> Panics
                              | Some child \<Rightarrow>
                                  (case fuel of
                                     0 \<Rightarrow> OutOfFuel
                                   | Suc f \<Rightarrow>
                                       (case Add f child pt of
                                          Returns (child', err) \<Rightarrow>
                                            Returns
                                              (NTree (center nt) (bounds nt) (p nt)
                                                 (Some (ch[unat target := Some child']))
                                                 (if err = None then count nt + 1 else count nt),
                                               err)
                                        | Panics \<Rightarrow> Panics
                                        | OutOfFuel \<Rightarrow> OutOfFuel)))
                       | Panics \<Rightarrow> Panics
                       | OutOfFuel \<Rightarrow> OutOfFuel))
             | None \<Rightarrow>
                 (case p nt of
                    Some curP \<Rightarrow>
                      (case split nt of
                         Returns (nt1, Some e) \<Rightarrow> Returns (nt1, Some e)
                       | Returns (nt1, None) \<Rightarrow>
                           (case fuel of
                              0 \<Rightarrow> OutOfFuel
                            | Suc f \<Rightarrow>
                                (case Add f nt1 (Some curP) of
                                   Returns (nt2, Some e) \<Rightarrow> Returns (nt2, Some e)
                                 | Returns (nt2, None) \<Rightarrow> Add f nt2 pt
                                 | Panics \<Rightarrow> Panics
                                 | OutOfFuel \<Rightarrow> OutOfFuel))
                       | Panics \<Rightarrow> Panics
                       | OutOfFuel \<Rightarrow> OutOfFuel)
                  | None \<Rightarrow> Returns (nt, None))))"

section \<open>Range search\<close>

text \<open>The leaf loop of \<open>Search\<close> over \<open>i := range nt.p.Coords\<close>: \<open>False\<close> as soon as a
  coordinate is below \<open>p1[i]\<close> or above \<open>p2[i]\<close> (the source returns \<open>nil, nil\<close> there).\<close>

fun leaf_loop :: "float64 list \<Rightarrow> float64 list \<Rightarrow> float64 list \<Rightarrow> bool outcome" where
  "leaf_loop [] p1 p2 = Returns True"
| "leaf_loop (x # xs) (a # p1) (b # p2) =
     (if x < a \<or> x > b then Returns False else leaf_loop xs p1 p2)"
| "leaf_loop (x # xs) p1 p2 = Panics"

text \<open>The test of the inner loop of the internal-node branch on one dimension, with
  \<open>s1 := child.center[i] - child.bounds[i]\<close> and \<open>s2 := child.center[i] + child.bounds[i]\<close>:
  the child lies outside \<open>[p1[i], p2[i]]\<close>.\<close>

definition outside_dim :: "float64 \<Rightarrow> float64 \<Rightarrow> float64 \<Rightarrow> float64 \<Rightarrow> bool" where
  "outside_dim c b a u = (let s1 = c - b; s2 = c + b in (s1 < a \<and> s2 < a) \<or> (s1 > u \<and> s2 > u))"

text \<open>The inner loop itself, \<open>for i := range p1\<close>, on one child's \<open>center\<close> and \<open>bounds\<close>.
  Its \<open>continue\<close> belongs to this inner loop: when the test holds the loop goes on with
  the next dimension, exactly as when it does not. The loop has no effect other than a
  panic on an index out of range (the third equation: \<open>p2[i]\<close> is read only when the
  first half of the test fails).\<close>

fun skip_loop :: "float64 list \<Rightarrow> float64 list \<Rightarrow> float64 list \<Rightarrow> float64 list
    \<Rightarrow> unit outcome" where
  "skip_loop cs bs [] p2 = Returns ()"
| "skip_loop (c # cs) (b # bs) (a # p1) (u # p2) =
     (if outside_dim c b a u
      then skip_loop cs bs p1 p2
      else skip_loop cs bs p1 p2)"
| "skip_loop (c # cs) (b # bs) (a # p1) [] =
     (if c - b < a \<and> c + b < a then skip_loop cs bs p1 [] else Panics)"
| "skip_loop cs bs (a # p1) p2 = Panics"

text \<open>\<open>Search\<close> and its loop \<open>for _, child := range nt.children\<close> with the slice
  \<open>points\<close> collected so far. The first branch is the source's
  \<open>nt.children == nil && nt.p != nil\<close>, the second its \<open>nt.children != nil\<close>, the last
  the final \<open>return points, nil\<close> with \<open>points\<close> still nil. A nil child panics when it
  is dereferenced.\<close>

fun Search :: "NTree \<Rightarrow> float64 list \<Rightarrow> float64 list \<Rightarrow> (error + Point list) outcome"
and Search_children :: "NTree option list \<Rightarrow> float64 list \<Rightarrow> float64 list \<Rightarrow> Point list
    \<Rightarrow> (error + Point list) outcome" where
  "Search (NTree cs bs pt ch n) p1 p2 =
     (if length p1 \<noteq> length p2 \<or> length p2 \<noteq> length cs then Returns (Inl SearchDimension)
      else
        (case (if ch = None then pt else None) of
           Some q \<Rightarrow>
             (case leaf_loop (Coords q) p1 p2 of
                Returns True \<Rightarrow> Returns (Inr [q])
              | Returns False \<Rightarrow> Returns (Inr [])
              | Panics \<Rightarrow> Panics
              | OutOfFuel \<Rightarrow> OutOfFuel)
         | None \<Rightarrow>
             (case ch of
                Some chl \<Rightarrow> Search_children chl p1 p2 []
              | None \<Rightarrow> Returns (Inr []))))"
| "Search_children [] p1 p2 points = Returns (Inr points)"
| "Search_children (child # rest) p1 p2 points =
     (case child of
        None \<Rightarrow> Panics
      | Some c \<Rightarrow>
          (case skip_loop (center c) (bounds c) p1 p2 of
             Returns _ \<Rightarrow>
               (case Search c p1 p2 of
                  Returns (Inl e) \<Rightarrow> Returns (Inl e)
                | Returns (Inr found) \<Rightarrow> Search_children rest p1 p2 (points @ found)
                | Panics \<Rightarrow> Panics
                | OutOfFuel \<Rightarrow> OutOfFuel)
           | Panics \<Rightarrow> Panics
           | OutOfFuel \<Rightarrow> OutOfFuel))"

text \<open>\<open>BoundPoints\<close>: the corners \<open>center[i] - bounds[i]\<close> and \<open>center[i] + bounds[i]\<close>
  for \<open>i := range nt.center\<close>.\<close>

fun bound_loop :: "float64 list \<Rightarrow> float64 list \<Rightarrow> (float64 list \<times> float64 list) outcome" where
  "bound_loop [] bs = Returns ([], [])"
| "bound_loop (c # cs) [] = Panics"
| "bound_loop (c # cs) (b # bs) =
     (case bound_loop cs bs of
        Returns (mn, mx) \<Rightarrow> Returns ((c - b) # mn, (c + b) # mx)
      | Panics \<Rightarrow> Panics
      | OutOfFuel \<Rightarrow> OutOfFuel)"

definition BoundPoints :: "NTree \<Rightarrow> (float64 list \<times> float64 list) outcome" where
  "BoundPoints nt = bound_loop (center nt) (bounds nt)"

section \<open>Lock events\<close>

text \<open>Every node has its own \<open>sync.RWMutex\<close>. A node is named by the child indices that
  lead to it from the node the operation was called on. The functions below list the
  mutex calls of one operation in the order in which it makes them; a deferred unlock is
  made when the call on its node ends, also when that call panics.\<close>

datatype lock_event =
    RLock "nat list" | RUnlock "nat list" | Lock "nat list" | Unlock "nat list"

text \<open>\<open>Search\<close> starts with \<open>nt.mutex.RLock(); defer nt.mutex.RUnlock()\<close>.\<close>

fun Search_locks :: "nat list \<Rightarrow> NTree \<Rightarrow> float64 list \<Rightarrow> float64 list \<Rightarrow> lock_event list"
and Search_children_locks :: "nat list \<Rightarrow> nat \<Rightarrow> NTree option list \<Rightarrow> float64 list
    \<Rightarrow> float64 list \<Rightarrow> lock_event list" where
  "Search_locks path (NTree cs bs pt ch n) p1 p2 =
     RLock path #
     (if length p1 \<noteq> length p2 \<or> length p2 \<noteq> length cs then []
      else
        (case (if ch = None then pt else None) of
           Some q \<Rightarrow> []
         | None \<Rightarrow>
             (case ch of
                Some chl \<Rightarrow> Search_children_locks path 0 chl p1 p2
              | None \<Rightarrow> [])))
     @ [RUnlock path]"
| "Search_children_locks path i [] p1 p2 = []"
| "Search_children_locks path i (child # rest) p1 p2 =
     (case child of
        None \<Rightarrow> []
      | Some c \<Rightarrow>
          (case skip_loop (center c) (bounds c) p1 p2 of
             Returns _ \<Rightarrow>
               Search_locks (path @ [i]) c p1 p2 @
               (case Search c p1 p2 of
                  Returns (Inr found) \<Rightarrow> Search_children_locks path (Suc i) rest p1 p2
                | _ \<Rightarrow> [])
           | _ \<Rightarrow> []))"

text \<open>The number of locks held after each event of a trace, starting from \<open>h\<close> held
  locks, and the largest of these numbers.\<close>

fun held :: "nat \<Rightarrow> lock_event \<Rightarrow> nat" where
  "held h (RLock path) = Suc h"
| "held h (Lock path) = Suc h"
| "held h (RUnlock path) = h - 1"
| "held h (Unlock path) = h - 1"

fun max_held :: "nat \<Rightarrow> lock_event list \<Rightarrow> nat" where
  "max_held h [] = h"
| "max_held h (e # es) = max h (max_held (held h e) es)"

section \<open>Stored points, well-formed trees and trees built by successful insertions\<close>

text \<open>The points a tree stores, as \<open>Search\<close> reads them: a node's own point counts only
  when the node has no children; the children are read in index order.\<close>

fun pts :: "NTree \<Rightarrow> Point list"
and pts_children :: "NTree option list \<Rightarrow> Point list" where
  "pts (NTree cs bs pt ch n) =
     (case ch of
        None \<Rightarrow> (case pt of None \<Rightarrow> [] | Some q \<Rightarrow> [q])
      | Some chl \<Rightarrow> pts_children chl)"
| "pts_children [] = []"
| "pts_children (child # rest) =
     (case child of None \<Rightarrow> [] | Some c \<Rightarrow> pts c) @ pts_children rest"

text \<open>The shape every node built by \<open>New\<close> and \<open>Add\<close> has: centre, half-extents and
  stored point of the tree's dimensionality \<open>n\<close>, a stored point only at a node without
  children, and no nil entry in an allocated child slice.\<close>

fun wf_node :: "nat \<Rightarrow> NTree \<Rightarrow> bool"
and wf_children :: "nat \<Rightarrow> NTree option list \<Rightarrow> bool" where
  "wf_node n (NTree cs bs pt ch k) =
     (length cs = n \<and> length bs = n \<and>
      (case pt of None \<Rightarrow> True | Some q \<Rightarrow> length (Coords q) = n \<and> ch = None) \<and>
      (case ch of None \<Rightarrow> True | Some chl \<Rightarrow> wf_children n chl))"
| "wf_children n [] = True"
| "wf_children n (child # rest) =
     (case child of None \<Rightarrow> False | Some c \<Rightarrow> wf_node n c \<and> wf_children n rest)"

text \<open>Every point stored below child \<open>i\<close> of a node is one that the node's addressing
  loop sends to index \<open>i\<close>; an allocated child slice has a length that fits \<open>uint64\<close>.\<close>

fun addressed :: "NTree \<Rightarrow> bool"
and addressed_children :: "float64 list \<Rightarrow> nat \<Rightarrow> NTree option list \<Rightarrow> bool" where
  "addressed (NTree cs bs pt ch n) =
     (case ch of
        None \<Rightarrow> True
      | Some chl \<Rightarrow> length chl < 2 ^ 64 \<and> addressed_children cs 0 chl)"
| "addressed_children cs i [] = True"
| "addressed_children cs i (child # rest) =
     ((case child of
         None \<Rightarrow> True
       | Some c \<Rightarrow>
           addressed c \<and>
           (\<forall>q\<in>set (pts c). target_loop 0 cs (Coords q) 0 = Returns (of_nat i))) \<and>
      addressed_children cs (Suc i) rest)"

text \<open>\<open>built nt qs\<close>: the tree \<open>nt\<close> is the result of constructing a root with \<open>New\<close> and
  then inserting the points \<open>qs\<close>, in this order, by calls of \<open>Add\<close> that all returned
  nil. No call of \<open>Add\<close> that returned an error, panicked or did not return is part of
  such a history.\<close>

inductive built :: "NTree \<Rightarrow> Point list \<Rightarrow> bool" where
  built_New: "New cs bs = Inr nt \<Longrightarrow> built nt []"
| built_Add: "built nt qs \<Longrightarrow> Add fuel nt (Some q) = Returns (nt', None) \<Longrightarrow> built nt' (qs @ [q])"

text \<open>A point lies in the closed query box: every coordinate is within
  \<open>[lower[i], upper[i]]\<close>.\<close>

definition in_box :: "float64 list \<Rightarrow> float64 list \<Rightarrow> float64 list \<Rightarrow> bool" where
  "in_box xs lower upper = (\<forall>i < length xs. lower ! i \<le> xs ! i \<and> xs ! i \<le> upper ! i)"

text \<open>A node as \<open>New\<close> returns it, of dimensionality \<open>n\<close>, behind a non-nil pointer.\<close>

definition fresh_leaf :: "nat \<Rightarrow> NTree option \<Rightarrow> bool" where
  "fresh_leaf n c \<longleftrightarrow> (\<exists>cs bs. c = Some (NTree cs bs None None 0) \<and> length cs = n \<and> length bs = n)"

text \<open>The node reached from \<open>nt\<close> by following child indices.\<close>

fun node_at :: "NTree \<Rightarrow> nat list \<Rightarrow> NTree option" where
  "node_at nt [] = Some nt"
| "node_at nt (k # path) =
     (case children nt of
        None \<Rightarrow> None
      | Some ch \<Rightarrow>
          if k < length ch
          then (case ch ! k of None \<Rightarrow> None | Some c \<Rightarrow> node_at c path)
          else None)"

section \<open>Lock events of insertion\<close>

text \<open>\<open>Contains\<close> takes the read lock and defers its release. \<open>Add\<close> then takes the write
  lock; the empty-leaf and the internal-node branch defer the unlock, so it is made when
  the branch returns or panics, after the recursive call into the child. The split branch
  has no deferred unlock: it unlocks by hand before the two recursive calls on the same
  node, and not at all when it returns the construction error or panics. A call that is
  cut off for lack of fuel has made the events up to that moment.\<close>

fun Add_locks :: "nat \<Rightarrow> nat list \<Rightarrow> NTree \<Rightarrow> Point option \<Rightarrow> lock_event list" where
  "Add_locks fuel path nt pt =
     RLock path # RUnlock path #
     (case Contains nt pt of
        Returns (Inr True) \<Rightarrow>
          Lock path #
          (if p nt = None \<and> children nt = None then [Unlock path]
           else
             (case children nt of
                Some ch \<Rightarrow>
                  (case pt of
                     None \<Rightarrow> [Unlock path]
                   | Some q \<Rightarrow>
                       (case target_loop 0 (center nt) (Coords q) 0 of
                          Returns target \<Rightarrow>
                            if target <s 0 \<or> length ch \<le> unat target then [Unlock path]
                            else
                              (case ch ! unat target of
                                 None \<Rightarrow> [Unlock path]
                               | Some child \<Rightarrow>
                                   (case fuel of
                                      0 \<Rightarrow> []
                                    | Suc f \<Rightarrow>
                                        Add_locks f (path @ [unat target]) child pt @
                                        (case Add f child pt of
                                           OutOfFuel \<Rightarrow> []
                                         | _ \<Rightarrow> [Unlock path])))
                        | Panics \<Rightarrow> [Unlock path]
                        | OutOfFuel \<Rightarrow> []))
              | None \<Rightarrow>
                  (case p nt of
                     Some curP \<Rightarrow>
                       (case split nt of
                          Returns (nt1, None) \<Rightarrow>
                            Unlock path #
                            (case fuel of
                               0 \<Rightarrow> []
                             | Suc f \<Rightarrow>
                                 Add_locks f path nt1 (Some curP) @
                                 (case Add f nt1 (Some curP) of
                                    Returns (nt2, None) \<Rightarrow> Add_locks f path nt2 pt
                                  | _ \<Rightarrow> []))
                        | _ \<Rightarrow> [])
                   | None \<Rightarrow> [])))
      | _ \<Rightarrow> [])"

section \<open>Example trees\<close>

text \<open>The example of the specification: the 2-dimensional tree centred at (0,0) with
  bounds (1,1), empty (\<open>ex_root\<close>), after inserting (-0.5,-0.5) (\<open>ex_leaf\<close>) and after
  inserting (0.5,0.5) as well, which forces one split (\<open>ex_tree\<close>).\<close>

definition ex_p1 :: Point where
  "ex_p1 = Point [-1/2, -1/2] None"

definition ex_p2 :: Point where
  "ex_p2 = Point [1/2, 1/2] None"

definition ex_root :: NTree where
  "ex_root = NTree [0, 0] [1, 1] None None 0"

definition ex_leaf :: NTree where
  "ex_leaf = NTree [0, 0] [1, 1] (Some ex_p1) None 1"

definition ex_split :: NTree where
  "ex_split = NTree [0, 0] [1, 1] None
     (Some [Some (NTree [-1/2, -1/2] [1/2, 1/2] None None 0),
            Some (NTree [1/2, -1/2] [1/2, 1/2] None None 0),
            Some (NTree [-1/2, 1/2] [1/2, 1/2] None None 0),
            Some (NTree [1/2, 1/2] [1/2, 1/2] None None 0)]) 0"

definition ex_tree :: NTree where
  "ex_tree = NTree [0, 0] [1, 1] None
     (Some [Some (NTree [-1/2, -1/2] [1/2, 1/2] (Some ex_p1) None 1),
            Some (NTree [1/2, -1/2] [1/2, 1/2] None None 0),
            Some (NTree [-1/2, 1/2] [1/2, 1/2] None None 0),
            Some (NTree [1/2, 1/2] [1/2, 1/2] (Some ex_p2) None 1)]) 2"

text \<open>\<open>ex_tree\<close> after inserting (0.25,-0.25) as a third point.\<close>

definition ex_p3 :: Point where
  "ex_p3 = Point [1/4, -1/4] None"

definition ex_tree3 :: NTree where
  "ex_tree3 = NTree [0, 0] [1, 1] None
     (Some [Some (NTree [-1/2, -1/2] [1/2, 1/2] (Some ex_p1) None 1),
            Some (NTree [1/2, -1/2] [1/2, 1/2] (Some ex_p3) None 1),
            Some (NTree [-1/2, 1/2] [1/2, 1/2] None None 0),
            Some (NTree [1/2, 1/2] [1/2, 1/2] (Some ex_p2) None 1)]) 3"

text \<open>An occupied leaf whose half-extent halves to a non-positive value, and the same
  node after the insertion that tries to split it. Over \<open>float64\<close> the half-extent 5e-324
  (the smallest positive value, accepted by \<open>New\<close>) halves to 0; over the reals only the
  half-extent 0 does.\<close>

definition ex_flat :: NTree where
  "ex_flat = NTree [0] [0] (Some (Point [0] None)) None 1"

definition ex_flat_failed :: NTree where
  "ex_flat_failed = NTree [0] [0] (Some (Point [0] None)) (Some [None, None]) 1"

text \<open>A 63-dimensional occupied leaf: centre 0 and half-extent 1 in every dimension,
  holding the point with all coordinates -1/2.\<close>

definition ex_leaf63 :: NTree where
  "ex_leaf63 =
     NTree (replicate 63 0) (replicate 63 1) (Some (Point (replicate 63 (-1/2)) None)) None 1"

text \<open>A second point, with all coordinates 1/2; the leaf after its split, which has a
  single child; and that tree once the stored point has been inserted again.\<close>

definition ex_p63 :: Point where
  "ex_p63 = Point (replicate 63 (1/2)) None"

definition ex_split63 :: NTree where
  "ex_split63 = NTree (replicate 63 0) (replicate 63 1) None
     (Some [Some (NTree (replicate 63 (-1/2)) (replicate 63 (1/2)) None None 0)]) 0"

definition ex_tree63 :: NTree where
  "ex_tree63 = NTree (replicate 63 0) (replicate 63 1) None
     (Some [Some (NTree (replicate 63 (-1/2)) (replicate 63 (1/2))
              (Some (Point (replicate 63 (-1/2)) None)) None 1)]) 1"

declare Add.simps [simp del]
declare Add_locks.simps [simp del]

section \<open>Construction: properties\<close>

lemma first_nonpositive_None:
  "first_nonpositive i bs = None \<longleftrightarrow> (\<forall>k<length bs. 0 < bs ! k)"
proof (induction bs arbitrary: i)
  case Nil
  show ?case by simp
next
  case (Cons b bs)
  show ?case
    by (simp add: Cons.IH All_less_Suc2 not_le)
qed

lemma New_Inr:
  "New cs bs = Inr nt \<longleftrightarrow>
     (length cs \<le> 63 \<and> length cs = length bs \<and> 0 < length cs \<and>
      (\<forall>k<length bs. 0 < bs ! k) \<and> nt = NTree cs bs None None 0)"
proof (cases "first_nonpositive 0 bs")
  case None
  then have "\<forall>k<length bs. 0 < bs ! k"
    by (simp add: first_nonpositive_None)
  with None show ?thesis
    by (auto simp: New_def MaxN_def)
next
  case (Some a)
  then have "\<not> (\<forall>k<length bs. 0 < bs ! k)"
    using first_nonpositive_None [of 0 bs] by simp
  with Some show ?thesis
    by (auto simp: New_def MaxN_def)
qed

text \<open>
  C6. \<open>New\<close> succeeds for every dimensionality from 1 to 63 when centre and half-extents
  have the same length and every half-extent is strictly positive; the node it returns has
  no point, no children, count 0 and reports that dimensionality. \<open>New\<close> returns an error
  exactly when the lengths differ, the dimensionality is 0 or above 63, or some
  half-extent is not positive.
\<close>

theorem New_construction:
  "(1 \<le> length cs \<and> length cs \<le> 63 \<and> length bs = length cs \<and> (\<forall>i<length bs. 0 < bs ! i)
      \<longrightarrow> (\<exists>nt. New cs bs = Inr nt \<and> p nt = None \<and> children nt = None \<and> Count nt = 0 \<and>
              N nt = length cs))
   \<and> ((\<exists>e. New cs bs = Inl e) \<longleftrightarrow>
        (length cs \<noteq> length bs \<or> length cs = 0 \<or> length cs > 63 \<or> (\<exists>i<length bs. bs ! i \<le> 0)))"
proof -
  have ok: "New cs bs = Inr (NTree cs bs None None 0)"
    if "1 \<le> length cs" "length cs \<le> 63" "length bs = length cs" "\<forall>i<length bs. 0 < bs ! i"
    using that by (auto simp: New_Inr)
  have "(\<exists>e. New cs bs = Inl e) \<longleftrightarrow> \<not> (\<exists>nt. New cs bs = Inr nt)"
    by (cases "New cs bs") auto
  also have "\<dots> \<longleftrightarrow> (length cs \<noteq> length bs \<or> length cs = 0 \<or> length cs > 63 \<or> (\<exists>i<length bs. bs ! i \<le> 0))"
    by (auto simp: New_Inr not_less not_le)
  finally show ?thesis
    using ok by (auto simp: N_def Count_def)
qed

theorem New_construction_witness:
  "(\<exists>nt. New [0, 0] [1, 2] = Inr nt \<and> p nt = None \<and> children nt = None \<and> Count nt = 0 \<and> N nt = 2)
   \<and> (\<exists>e. New [0, 0] [1] = Inl e) \<and> (\<exists>e. New [] [] = Inl e) \<and> (\<exists>e. New [0, 0] [1, 0] = Inl e)"
  using New_construction [of "[0, 0]" "[1, 2]"] New_construction [of "[0, 0]" "[1]"]
    New_construction [of "[]" "[]"] New_construction [of "[0, 0]" "[1, 0]"]
  by (simp add: All_less_Suc2 Ex_less_Suc2 numeral_2_eq_2)

section \<open>Nil points\<close>

text \<open>
  C9. On every node, \<open>Contains\<close> with a nil point returns the error "Point is nil" (it does
  not panic), and \<open>Add\<close> with a nil point returns the same error and leaves the node as it
  was, whatever the recursion budget.
\<close>

theorem nil_point_is_rejected:
  "Contains nt None = Returns (Inl PointIsNil) \<and> Add fuel nt None = Returns (nt, Some PointIsNil)"
  by (simp add: Add.simps)

section \<open>Search on well-formed trees\<close>

lemma in_box_Nil [simp]: "in_box [] lower upper"
  by (simp add: in_box_def)

lemma in_box_Cons [simp]:
  "in_box (x # xs) (a # lower) (b # upper) \<longleftrightarrow> a \<le> x \<and> x \<le> b \<and> in_box xs lower upper"
  by (simp add: in_box_def All_less_Suc2)

lemma leaf_loop_in_box:
  "length p1 = length xs \<Longrightarrow> length p2 = length xs \<Longrightarrow>
   leaf_loop xs p1 p2 = Returns (in_box xs p1 p2)"
proof (induction xs p1 p2 rule: leaf_loop.induct)
  case (1 p1 p2)
  then show ?case by simp
next
  case (2 x xs a p1 b p2)
  then show ?case by (auto simp: not_less)
qed simp_all

lemma skip_loop_Returns:
  "length p1 \<le> length cs \<Longrightarrow> length p1 \<le> length bs \<Longrightarrow> length p2 = length p1 \<Longrightarrow>
   skip_loop cs bs p1 p2 = Returns ()"
proof (induction cs bs p1 p2 rule: skip_loop.induct)
  case (2 c cs b bs a p1 u p2)
  then show ?case
    by (cases "outside_dim c b a u") simp_all
qed simp_all

lemma wf_center: "wf_node n nt \<Longrightarrow> length (center nt) = n \<and> length (bounds nt) = n"
  by (cases nt) simp

lemma Search_wf_aux:
  "wf_node n nt \<longrightarrow> length p1 = n \<longrightarrow> length p2 = n \<longrightarrow>
      Search nt p1 p2 = Returns (Inr (filter (\<lambda>q. in_box (Coords q) p1 p2) (pts nt)))"
  "wf_children n chl \<longrightarrow> length p1' = n \<longrightarrow> length p2' = n \<longrightarrow>
      Search_children chl p1' p2' acc =
        Returns (Inr (acc @ filter (\<lambda>q. in_box (Coords q) p1' p2') (pts_children chl)))"
proof (induction nt p1 p2 and chl p1' p2' acc rule: Search_Search_children.induct)
  case (1 cs bs pt ch k p1 p2)
  show ?case
  proof (intro impI)
    assume w: "wf_node n (NTree cs bs pt ch k)" and l1: "length p1 = n" and l2: "length p2 = n"
    show "Search (NTree cs bs pt ch k) p1 p2 =
            Returns (Inr (filter (\<lambda>q. in_box (Coords q) p1 p2) (pts (NTree cs bs pt ch k))))"
    proof (cases ch)
      case None
      show ?thesis
      proof (cases pt)
        case None
        with \<open>ch = None\<close> w l1 l2 show ?thesis by simp
      next
        case (Some q)
        with \<open>ch = None\<close> w l1 l2 have "leaf_loop (Coords q) p1 p2 = Returns (in_box (Coords q) p1 p2)"
          by (simp add: leaf_loop_in_box)
        with Some \<open>ch = None\<close> w l1 l2 show ?thesis by simp
      qed
    next
      case (Some chl)
      with w have "pt = None" and "wf_children n chl"
        by (auto split: option.splits)
      with Some w l1 l2 "1.IH" [of chl] show ?thesis by simp
    qed
  qed
next
  case (2 p1 p2 points)
  show ?case by simp
next
  case (3 child rest p1 p2 points)
  show ?case
  proof (intro impI)
    assume w: "wf_children n (child # rest)" and l1: "length p1 = n" and l2: "length p2 = n"
    from w obtain c where c: "child = Some c" "wf_node n c" "wf_children n rest"
      by (auto split: option.splits)
    have sk: "skip_loop (center c) (bounds c) p1 p2 = Returns ()"
      using wf_center [OF c(2)] l1 l2 by (simp add: skip_loop_Returns)
    have s: "Search c p1 p2 = Returns (Inr (filter (\<lambda>q. in_box (Coords q) p1 p2) (pts c)))"
      using "3.IH"(1) [OF c(1) sk] c(2) l1 l2 by simp
    show "Search_children (child # rest) p1 p2 points =
            Returns (Inr (points @ filter (\<lambda>q. in_box (Coords q) p1 p2) (pts_children (child # rest))))"
      using "3.IH"(2) [OF c(1) sk s refl] c l1 l2 sk s by simp
  qed
qed

lemma Search_wf:
  "wf_node n nt \<Longrightarrow> length p1 = n \<Longrightarrow> length p2 = n \<Longrightarrow>
   Search nt p1 p2 = Returns (Inr (filter (\<lambda>q. in_box (Coords q) p1 p2) (pts nt)))"
  using Search_wf_aux(1) [of n nt p1 p2] by simp


section \<open>Insertions that return nil\<close>

text \<open>A successful \<open>Add\<close> went through exactly one of the three branches; it keeps the
  node's box, raises its count by one, stores the point, and preserves the shape and the
  addressing of the tree.\<close>

lemma Contains_True_Some:
  "Contains nt pt = Returns (Inr True) \<Longrightarrow>
   \<exists>q. pt = Some q \<and> length (Coords q) = N nt \<and>
        contains_loop (center nt) (bounds nt) (Coords q) = Returns True"
  by (cases pt) (auto split: if_splits outcome.splits)

lemma Contains_same_box:
  "center nt' = center nt \<Longrightarrow> bounds nt' = bounds nt \<Longrightarrow> Contains nt' pt = Contains nt pt"
  by (cases pt) (simp_all add: N_def)

lemma Add_success_cases:
  assumes "Add fuel nt pt = Returns (nt', None)"
  shows "Contains nt pt = Returns (Inr True) \<and>
    ((p nt = None \<and> children nt = None \<and>
       nt' = NTree (center nt) (bounds nt) pt None (count nt + 1))
     \<or> (\<exists>ch q t child f child'.
          children nt = Some ch \<and> pt = Some q \<and>
          target_loop 0 (center nt) (Coords q) 0 = Returns t \<and> \<not> t <s 0 \<and>
          unat t < length ch \<and> ch ! unat t = Some child \<and> fuel = Suc f \<and> Add f child pt = Returns (child', None) \<and>
          nt' = NTree (center nt) (bounds nt) (p nt) (Some (ch[unat t := Some child'])) (count nt + 1))
     \<or> (\<exists>curP nt1 f nt2.
          children nt = None \<and> p nt = Some curP \<and> split nt = Returns (nt1, None) \<and>
          fuel = Suc f \<and> Add f nt1 (Some curP) = Returns (nt2, None) \<and>
          Add f nt2 pt = Returns (nt', None)))"
  using assms
  by (subst (asm) Add.simps)
     (auto split: outcome.splits sum.splits bool.splits option.splits if_splits nat.splits
        prod.splits)


lemma child_box_length:
  "child_box i j cs bs = Returns (cs', bs') \<Longrightarrow> length cs' = length cs \<and> length bs' = length cs"
proof (induction i j cs bs arbitrary: cs' bs' rule: child_box.induct)
  case (3 i j c cs b bs)
  then show ?case
    by (auto split: outcome.splits prod.splits)
qed simp_all

lemma split_loop_result:
  "split_loop nt is ch = Returns (ch', None) \<Longrightarrow>
   length ch' = length ch \<and>
   (\<forall>i<length ch. (i \<in> set is \<longrightarrow> fresh_leaf (N nt) (ch' ! i)) \<and> (i \<notin> set is \<longrightarrow> ch' ! i = ch ! i))"
proof (induction "is" arbitrary: ch)
  case Nil
  then show ?case by simp
next
  case (Cons i "is")
  from Cons.prems obtain cs bs child where
    box: "child_box (of_nat i) 0 (center nt) (bounds nt) = Returns (cs, bs)" and
    new: "New cs bs = Inr child" and
    rest: "split_loop nt is (ch[i := Some child]) = Returns (ch', None)"
    by (auto split: outcome.splits prod.splits sum.splits)
  from new have child: "child = NTree cs bs None None 0"
    by (simp add: New_Inr)
  from child_box_length [OF box] child have fresh: "fresh_leaf (N nt) (Some child)"
    by (simp add: fresh_leaf_def N_def)
  from Cons.IH [OF rest] have
    len: "length ch' = length ch" and
    ih: "\<And>k. k < length ch \<Longrightarrow>
           (k \<in> set is \<longrightarrow> fresh_leaf (N nt) (ch' ! k)) \<and>
           (k \<notin> set is \<longrightarrow> ch' ! k = ch[i := Some child] ! k)"
    by simp_all
  show ?case
  proof (intro conjI allI impI)
    show "length ch' = length ch" by (rule len)
  next
    fix k assume k: "k < length ch" and "k \<in> set (i # is)"
    then show "fresh_leaf (N nt) (ch' ! k)"
      using ih [OF k] fresh by (cases "k \<in> set is") auto
  next
    fix k assume k: "k < length ch" and "k \<notin> set (i # is)"
    then show "ch' ! k = ch ! k"
      using ih [OF k] by simp
  qed
qed

lemma split_result:
  assumes "split nt = Returns (nt1, None)"
  shows "\<exists>chl. nt1 = NTree (center nt) (bounds nt) None (Some chl) (count nt - 1) \<and>
           (\<forall>c\<in>set chl. fresh_leaf (N nt) c)"
proof -
  define sz where "sz = unat (ModPowUint64 2 (of_nat (N nt)) MaxInt)"
  from assms obtain chl where
    loop: "split_loop nt [0..<sz] (replicate sz None) = Returns (chl, None)" and
    nt1: "nt1 = NTree (center nt) (bounds nt) None (Some chl) (count nt - 1)"
    by (auto simp: split_def Let_def sz_def split: outcome.splits prod.splits option.splits)
  from split_loop_result [OF loop] have "length chl = sz" and
    "\<forall>i < sz. fresh_leaf (N nt) (chl ! i)"
    by simp_all
  then have "\<forall>c\<in>set chl. fresh_leaf (N nt) c"
    by (auto simp: in_set_conv_nth)
  with nt1 show ?thesis by blast
qed

lemma fresh_children:
  "\<forall>c\<in>set chl. fresh_leaf n c \<Longrightarrow> wf_children n chl \<and> pts_children chl = []"
  by (induction chl) (auto simp: fresh_leaf_def)

lemma wf_children_nth:
  "wf_children n ch \<Longrightarrow> i < length ch \<Longrightarrow> ch ! i = Some c \<Longrightarrow> wf_node n c"
proof (induction ch arbitrary: i)
  case Nil
  then show ?case by simp
next
  case (Cons a ch)
  then show ?case
    by (cases i) (auto split: option.splits)
qed

lemma wf_children_update:
  "wf_children n ch \<Longrightarrow> wf_node n c \<Longrightarrow> wf_children n (ch[i := Some c])"
  by (induction ch arbitrary: i) (auto split: option.splits nat.splits)

lemma pts_children_update:
  "i < length ch \<Longrightarrow> ch ! i = Some c \<Longrightarrow>
   mset (pts_children (ch[i := Some c'])) + mset (pts c) = mset (pts_children ch) + mset (pts c')"
proof (induction ch arbitrary: i)
  case Nil
  then show ?case by simp
next
  case (Cons a ch)
  then show ?case
    by (cases i) (auto split: option.splits)
qed



lemma Add_success_elim:
  assumes "Add fuel nt pt = Returns (nt', None)"
  obtains
    (leaf) "p nt = None" "children nt = None"
      "nt' = NTree (center nt) (bounds nt) pt None (count nt + 1)"
  | (internal) ch and t :: go_int and child f child' q where
      "children nt = Some ch" "unat t < length ch" "ch ! unat t = Some child" "fuel = Suc f"
      "Add f child pt = Returns (child', None)"
      "nt' = NTree (center nt) (bounds nt) (p nt) (Some (ch[unat t := Some child'])) (count nt + 1)"
      "pt = Some q" "target_loop 0 (center nt) (Coords q) 0 = Returns t"
  | (split) curP nt1 f nt2 where
      "children nt = None" "p nt = Some curP" "split nt = Returns (nt1, None)" "fuel = Suc f"
      "Add f nt1 (Some curP) = Returns (nt2, None)" "Add f nt2 pt = Returns (nt', None)"
  using Add_success_cases [OF assms]
  by (elim conjE disjE exE) fast+


lemma Add_success:
  "Add fuel nt pt = Returns (nt', None) \<Longrightarrow>
     center nt' = center nt \<and> bounds nt' = bounds nt \<and> count nt' = count nt + 1 \<and>
     (\<exists>q. pt = Some q \<and> mset (pts nt') = add_mset q (mset (pts nt))) \<and>
     (wf_node n nt \<longrightarrow> wf_node n nt')"
proof (induction fuel arbitrary: nt pt nt' rule: less_induct)
  case (less fuel)
  from Add_success_cases [OF less.prems] have inside: "Contains nt pt = Returns (Inr True)"
    by simp
  from Contains_True_Some [OF inside] obtain q where
    q: "pt = Some q" "length (Coords q) = N nt" by blast
  from less.prems show ?case
  proof (cases rule: Add_success_elim)
    case leaf
    with q show ?thesis
      by (cases nt) (auto simp: N_def)
  next
    case (internal ch t child f child')
    from less.IH [of f child pt child'] internal have
      ih: "mset (pts child') = add_mset q (mset (pts child))" "wf_node n child \<longrightarrow> wf_node n child'"
      using q by auto
    have "mset (pts_children (ch[unat t := Some child'])) + mset (pts child)
            = mset (pts_children ch) + mset (pts child')"
      using internal by (intro pts_children_update)
    with ih(1) have m: "mset (pts_children (ch[unat t := Some child'])) = add_mset q (mset (pts_children ch))"
      by simp
    have w: "wf_node n nt' " if "wf_node n nt"
    proof -
      from that internal have wch: "wf_children n ch" and pn: "p nt = None"
        and len: "length (center nt) = n" "length (bounds nt) = n"
        by (cases nt; auto split: option.splits)+
      from wf_children_nth [OF wch internal(2,3)] ih(2) have "wf_node n child'" by simp
      from wf_children_update [OF wch this] pn len internal(6) show ?thesis by simp
    qed
    from internal q m w show ?thesis
      by (cases nt) auto
  next
    case (split curP nt1 f nt2)
    from split_result [OF split(3)] obtain chl where
      nt1: "nt1 = NTree (center nt) (bounds nt) None (Some chl) (count nt - 1)" and
      fr: "\<forall>c\<in>set chl. fresh_leaf (N nt) c"
      by blast
    from fresh_children [OF fr] have chl: "wf_children (N nt) chl" "pts_children chl = []"
      by simp_all
    from less.IH [of f nt1 "Some curP" nt2] split have
      ih1: "center nt2 = center nt1" "bounds nt2 = bounds nt1" "count nt2 = count nt1 + 1"
        "mset (pts nt2) = add_mset curP (mset (pts nt1))" "wf_node n nt1 \<longrightarrow> wf_node n nt2"
      by auto
    from less.IH [of f nt2 pt nt'] split q have
      ih2: "center nt' = center nt2" "bounds nt' = bounds nt2" "count nt' = count nt2 + 1"
        "mset (pts nt') = add_mset q (mset (pts nt2))" "wf_node n nt2 \<longrightarrow> wf_node n nt'"
      by auto
    have p0: "pts nt = [curP]"
      using split(1,2) by (cases nt) simp
    have p1: "pts nt1 = []"
      using nt1 chl by simp
    have w: "wf_node n nt'" if "wf_node n nt"
    proof -
      from that have "N nt = n" "length (bounds nt) = n"
        by (cases nt; simp add: N_def)+
      with nt1 chl have "wf_node n nt1" by (simp add: N_def)
      with ih1 ih2 show ?thesis by simp
    qed
    from ih1 ih2 p0 p1 nt1 q w show ?thesis
      by simp
  qed
qed


lemma addressed_children_nth:
  "addressed_children cs i0 chl \<longleftrightarrow>
     (\<forall>k<length chl. \<forall>c. chl ! k = Some c \<longrightarrow>
        addressed c \<and> (\<forall>q\<in>set (pts c). target_loop 0 cs (Coords q) 0 = Returns (of_nat (i0 + k))))"
proof (induction chl arbitrary: i0)
  case Nil
  show ?case by simp
next
  case (Cons child rest)
  show ?case
    by (cases child) (simp_all add: Cons.IH All_less_Suc2 del: of_nat_add of_nat_Suc)
qed

lemma pts_children_member:
  "q \<in> set (pts_children chl) \<Longrightarrow> \<exists>k<length chl. \<exists>c. chl ! k = Some c \<and> q \<in> set (pts c)"
proof (induction chl)
  case Nil
  then show ?case by simp
next
  case (Cons child rest)
  show ?case
  proof (cases "q \<in> set (pts_children rest)")
    case True
    from Cons.IH [OF this] obtain k c where "k < length rest" "rest ! k = Some c" "q \<in> set (pts c)"
      by blast
    then have "Suc k < length (child # rest) \<and> (child # rest) ! Suc k = Some c \<and> q \<in> set (pts c)"
      by simp
    then show ?thesis by blast
  next
    case False
    with Cons.prems obtain c where "child = Some c" "q \<in> set (pts c)"
      by (cases child) auto
    then have "0 < length (child # rest) \<and> (child # rest) ! 0 = Some c \<and> q \<in> set (pts c)"
      by simp
    then show ?thesis by blast
  qed
qed

lemma fresh_children_addressed:
  "\<forall>c\<in>set chl. fresh_leaf n c \<Longrightarrow> addressed_children cs i chl"
  by (induction chl arbitrary: i) (auto simp: fresh_leaf_def)

lemma Add_addressed:
  "addressed nt \<Longrightarrow> Add fuel nt pt = Returns (nt', None) \<Longrightarrow> addressed nt'"
proof (induction fuel arbitrary: nt pt nt' rule: less_induct)
  case (less fuel)
  from less.prems(2) show ?case
  proof (cases rule: Add_success_elim)
    case leaf
    then show ?thesis by simp
  next
    case (internal ch t child f child' q)
    from less.prems(1) internal(1) have len: "length ch < 2 ^ 64"
      and a: "addressed_children (center nt) 0 ch"
      by (cases nt; simp)+
    from a internal(2,3) have child: "addressed child"
      and tq: "\<forall>q0\<in>set (pts child). target_loop 0 (center nt) (Coords q0) 0 = Returns (of_nat (unat t))"
      by (auto simp: addressed_children_nth)
    from less.IH [of f child pt child'] internal child have child': "addressed child'"
      by simp
    from Add_success [OF internal(5), of 0] internal(7) have
      "set (pts child') = insert q (set (pts child))"
      by (metis option.inject set_mset_add_mset_insert set_mset_mset)
    with tq internal(8) have
      tq': "\<forall>q0\<in>set (pts child'). target_loop 0 (center nt) (Coords q0) 0 = Returns (of_nat (unat t))"
      by simp
    have "addressed_children (center nt) 0 (ch[unat t := Some child'])"
      unfolding addressed_children_nth
    proof (intro allI impI)
      fix k c
      assume k: "k < length (ch[unat t := Some child'])" and c: "ch[unat t := Some child'] ! k = Some c"
      show "addressed c \<and> (\<forall>q\<in>set (pts c). target_loop 0 (center nt) (Coords q) 0 = Returns (of_nat (0 + k)))"
      proof (cases "k = unat t")
        case True
        with k c child' tq' show ?thesis by simp
      next
        case False
        with k c a show ?thesis by (simp add: addressed_children_nth)
      qed
    qed
    with len internal(6) show ?thesis by simp
  next
    case (split curP nt1 f nt2)
    from split_result [OF split(3)] obtain chl where
      nt1: "nt1 = NTree (center nt) (bounds nt) None (Some chl) (count nt - 1)" and
      fr: "\<forall>c\<in>set chl. fresh_leaf (N nt) c"
      by blast
    have "length chl < 2 ^ 64"
    proof -
      define sz where "sz = unat (ModPowUint64 2 (of_nat (N nt)) MaxInt)"
      from split(3) nt1 have "split_loop nt [0..<sz] (replicate sz None) = Returns (chl, None)"
        by (auto simp: split_def Let_def sz_def split: outcome.splits prod.splits option.splits)
      from split_loop_result [OF this] have "length chl = sz" by simp
      moreover have "sz < 2 ^ 64"
        unfolding sz_def using unsigned_less [of "ModPowUint64 2 (of_nat (N nt)) MaxInt"] by simp
      ultimately show ?thesis by simp
    qed
    with fresh_children_addressed [OF fr] nt1 have "addressed nt1"
      by simp
    with less.IH [of f nt1 "Some curP" nt2] split have "addressed nt2" by simp
    with less.IH [of f nt2 pt nt'] split show ?thesis by simp
  qed
qed

lemma Add_new_coordinates:
  "addressed nt \<Longrightarrow> Add fuel nt (Some q) = Returns (nt', None) \<Longrightarrow> q0 \<in> set (pts nt) \<Longrightarrow>
   Coords q0 \<noteq> Coords q"
proof (induction fuel arbitrary: nt nt' rule: less_induct)
  case (less fuel)
  from less.prems(2) show ?case
  proof (cases rule: Add_success_elim)
    case leaf
    with less.prems(3) show ?thesis by (cases nt) simp
  next
    case (internal ch t child f child' q')
    then have q': "q' = q" by simp
    from less.prems(1) internal(1) have len: "length ch < 2 ^ 64"
      and a: "addressed_children (center nt) 0 ch"
      by (cases nt; simp)+
    from less.prems(3) internal(1) have "q0 \<in> set (pts_children ch)"
      by (cases nt) simp
    from pts_children_member [OF this] obtain k c where
      k: "k < length ch" "ch ! k = Some c" "q0 \<in> set (pts c)"
      by blast
    with a have c: "addressed c" and tk: "target_loop 0 (center nt) (Coords q0) 0 = Returns (of_nat k)"
      by (auto simp: addressed_children_nth)
    show ?thesis
    proof
      assume eq: "Coords q0 = Coords q"
      with tk internal(8) q' have "t = of_nat k" by simp
      moreover from k(1) len have "unat (of_nat k :: 64 word) = k"
        by (simp add: unat_of_nat)
      ultimately have "unat t = k" by simp
      with k internal(3) have "child = c" by simp
      with less.IH [of f c nt'] internal c k(3) q' have "Coords q0 \<noteq> Coords q"
        by (metis lessI less.IH)
      with eq show False by simp
    qed
  next
    case (split curP nt1 f nt2)
    from less.prems(3) split(1,2) have q0: "q0 = curP"
      by (cases nt) simp
    from split_result [OF split(3)] obtain chl where
      nt1: "nt1 = NTree (center nt) (bounds nt) None (Some chl) (count nt - 1)" and
      fr: "\<forall>c\<in>set chl. fresh_leaf (N nt) c"
      by blast
    have "length chl < 2 ^ 64"
    proof -
      define sz where "sz = unat (ModPowUint64 2 (of_nat (N nt)) MaxInt)"
      from split(3) nt1 have "split_loop nt [0..<sz] (replicate sz None) = Returns (chl, None)"
        by (auto simp: split_def Let_def sz_def split: outcome.splits prod.splits option.splits)
      from split_loop_result [OF this] have "length chl = sz" by simp
      moreover have "sz < 2 ^ 64"
        unfolding sz_def using unsigned_less [of "ModPowUint64 2 (of_nat (N nt)) MaxInt"] by simp
      ultimately show ?thesis by simp
    qed
    with fresh_children_addressed [OF fr] nt1 have a1: "addressed nt1"
      by simp
    from Add_addressed [OF a1 split(5)] have a2: "addressed nt2" .
    from Add_success [OF split(5), of 0] q0 have "q0 \<in> set (pts nt2)"
      by (metis option.inject set_mset_mset union_single_eq_member)
    from less.IH [OF _ a2 split(6) this] split(4) show ?thesis by simp
  qed
qed

section \<open>Children of a split and their addressing\<close>

text \<open>Up to 62 dimensions the split creates \<open>2^N\<close> children, child \<open>i\<close> has half the
  parent's half-extents and its centre moved up in the dimensions whose bit is set in \<open>i\<close>
  and down in the others, and the index computed for a point has bit \<open>j\<close> set exactly when
  the point's coordinate \<open>j\<close> exceeds the centre's.\<close>

lemma unat_power_of_two:
  assumes "n \<le> 62"
  shows "unat (word_of_int (2 ^ n) :: 64 word) = 2 ^ n"
proof -
  have "(2::int) ^ n < 2 ^ 64"
    using assms by (intro power_strict_increasing) simp_all
  then have "take_bit 64 ((2::int) ^ n) = 2 ^ n"
    by (intro take_bit_int_eq_self) simp_all
  then have "nat (take_bit LENGTH(64) ((2::int) ^ n)) = 2 ^ n"
    by (simp add: nat_power_eq)
  then show ?thesis
    by (simp only: unsigned_of_int of_nat_id)
qed

lemma and_single_bit: "(w :: 64 word) AND push_bit j 1 = (if bit w j then push_bit j 1 else 0)"
  by (rule bit_eqI) (auto simp: bit_simps)

lemma sint_single_bit:
  assumes "j < 63"
  shows "sint (push_bit j 1 :: 64 word) = 2 ^ j"
proof -
  have lt: "(2::int) ^ j < 2 ^ 63"
    using assms by (intro power_strict_increasing) simp_all
  have "- (2 ^ 63) \<le> (2::int) ^ j"
    by (rule order_trans [of _ 0]) simp_all
  with lt have "signed_take_bit 63 ((2::int) ^ j) = 2 ^ j"
    by (intro signed_take_bit_int_eq_self) simp_all
  then have "sint (word_of_int (2 ^ j) :: 64 word) = 2 ^ j"
    by (simp only: sint_sbintrunc') simp
  then show ?thesis
    by (simp only: word_of_int_2p push_bit_of_1)
qed

lemma hasBit_bit: "j < 63 \<Longrightarrow> hasBit w j = bit w j"
  using sint_single_bit [of j] by (simp add: hasBit_def and_single_bit word_sless_alt del: push_bit_of_1)

lemma bit_setBit: "bit (setBit (t::64 word) j) k = (bit t k \<or> (k = j \<and> j < 64))"
  by (auto simp: setBit_def bit_simps)


lemma split_size:
  assumes "n \<le> 62"
  shows "unat (ModPowUint64 2 (of_nat n) MaxInt) = 2 ^ n"
proof -
  have n: "unat (of_nat n :: 64 word) = n"
    using assms by (simp add: unat_of_nat)
  have "(2::int) ^ n \<le> 2 ^ 62"
    using assms by (intro power_increasing) simp_all
  then have lt: "(2::int) ^ n < 2 ^ 63 - 1" by simp
  have "uint (MaxInt :: 64 word) = 2 ^ 63 - 1"
    by (simp add: MaxInt_def)
  with lt have "(uint (2 :: 64 word) ^ n) mod uint MaxInt = 2 ^ n"
    by simp
  then have "ModPowUint64 2 (of_nat n) MaxInt = word_of_int (2 ^ n)"
    by (simp only: ModPowUint64_def n)
  with unat_power_of_two [OF assms] show ?thesis by (simp only:)
qed

lemma child_box_nth:
  "child_box i j0 cs bs = Returns (cs', bs') \<Longrightarrow> k < length cs \<Longrightarrow>
   bs' ! k = bs ! k / 2 \<and>
   cs' ! k = (if hasBit i (j0 + k) then cs ! k + bs' ! k else cs ! k - bs' ! k)"
proof (induction i j0 cs bs arbitrary: cs' bs' k rule: child_box.induct)
  case (3 i j c cs b bs)
  from "3.prems"(1) obtain cs0 bs0 where
    r: "child_box i (Suc j) cs bs = Returns (cs0, bs0)" and
    e: "cs' = (if hasBit i j then c + b / 2 else c - b / 2) # cs0" "bs' = (b / 2) # bs0"
    by (auto split: outcome.splits prod.splits)
  show ?case
  proof (cases k)
    case 0
    with e show ?thesis by simp
  next
    case (Suc k')
    with "3.prems"(2) have "k' < length cs" by simp
    from "3.IH" [OF r this] Suc e show ?thesis by simp
  qed
qed simp_all

lemma split_loop_children:
  "split_loop nt is ch = Returns (ch', None) \<Longrightarrow> distinct is \<Longrightarrow> i \<in> set is \<Longrightarrow> i < length ch \<Longrightarrow>
   \<exists>cs' bs'. child_box (of_nat i) 0 (center nt) (bounds nt) = Returns (cs', bs') \<and>
      ch' ! i = Some (NTree cs' bs' None None 0)"
proof (induction "is" arbitrary: ch)
  case Nil
  then show ?case by simp
next
  case (Cons k "is")
  from Cons.prems(1) obtain cs bs child where
    box: "child_box (of_nat k) 0 (center nt) (bounds nt) = Returns (cs, bs)" and
    new: "New cs bs = Inr child" and
    rest: "split_loop nt is (ch[k := Some child]) = Returns (ch', None)"
    by (auto split: outcome.splits prod.splits sum.splits)
  from new have child: "child = NTree cs bs None None 0"
    by (simp add: New_Inr)
  show ?case
  proof (cases "i = k")
    case True
    with Cons.prems(2) have "i \<notin> set is" by simp
    with split_loop_result [OF rest] Cons.prems(4) have "ch' ! i = ch[k := Some child] ! i"
      by simp
    with True Cons.prems(4) box child show ?thesis by simp
  next
    case False
    with Cons.prems have "distinct is" "i \<in> set is" "i < length (ch[k := Some child])"
      by simp_all
    from Cons.IH [OF rest this] show ?thesis .
  qed
qed

lemma target_loop_bit:
  "target_loop j0 cs xs t = Returns r \<Longrightarrow> j0 + length cs \<le> 64 \<Longrightarrow>
   bit r k = (bit t k \<or> (j0 \<le> k \<and> k < j0 + length cs \<and> xs ! (k - j0) > cs ! (k - j0)))"
proof (induction j0 cs xs t arbitrary: r rule: target_loop.induct)
  case (1 j xs t)
  then show ?case by auto
next
  case (2 j c cs t)
  then show ?case by simp
next
  case (3 j c cs x xs t)
  let ?t = "if x > c then setBit t j else t"
  from "3.prems" have "target_loop (Suc j) cs xs ?t = Returns r" "Suc j + length cs \<le> 64"
    by simp_all
  from "3.IH" [OF this] have
    ih: "bit r k = (bit ?t k \<or> (Suc j \<le> k \<and> k < Suc j + length cs \<and> xs ! (k - Suc j) > cs ! (k - Suc j)))" .
  from "3.prems"(2) have j: "j < 64" by simp
  show ?case
  proof (cases "k = j")
    case True
    with ih j show ?thesis by (simp add: bit_setBit)
  next
    case False
    show ?thesis
    proof (cases "k < j")
      case True
      with ih show ?thesis by (auto simp: bit_setBit)
    next
      case False
      with \<open>k \<noteq> j\<close> obtain d where d: "k = Suc j + d" 
        by (metis add_Suc less_iff_Suc_add linorder_neqE_nat)
      with ih show ?thesis by (auto simp: bit_setBit)
    qed
  qed
qed


lemma split_geometry:
  assumes "split nt = Returns (nt1, None)" and "N nt \<le> 62"
  shows "\<exists>chl. nt1 = NTree (center nt) (bounds nt) None (Some chl) (count nt - 1) \<and>
           length chl = 2 ^ N nt \<and>
           (\<forall>i < 2 ^ N nt. \<exists>c. chl ! i = Some c \<and> p c = None \<and> children c = None \<and>
              length (center c) = N nt \<and> length (bounds c) = N nt \<and>
              (\<forall>j < N nt. bounds c ! j = bounds nt ! j / 2 \<and>
                 center c ! j = (if bit i j then center nt ! j + bounds c ! j
                                 else center nt ! j - bounds c ! j)))"
proof -
  define sz where "sz = unat (ModPowUint64 2 (of_nat (N nt)) MaxInt)"
  have sz: "sz = 2 ^ N nt"
    using assms(2) by (simp only: sz_def split_size)
  from assms(1) obtain chl where
    loop: "split_loop nt [0..<sz] (replicate sz None) = Returns (chl, None)" and
    nt1: "nt1 = NTree (center nt) (bounds nt) None (Some chl) (count nt - 1)"
    by (auto simp: split_def Let_def sz_def split: outcome.splits prod.splits option.splits)
  from split_loop_result [OF loop] have len: "length chl = sz"
    by simp
  have "\<exists>c. chl ! i = Some c \<and> p c = None \<and> children c = None \<and>
              length (center c) = N nt \<and> length (bounds c) = N nt \<and>
              (\<forall>j < N nt. bounds c ! j = bounds nt ! j / 2 \<and>
                 center c ! j = (if bit i j then center nt ! j + bounds c ! j
                                 else center nt ! j - bounds c ! j))"
    if i: "i < sz" for i
  proof -
    from split_loop_children [OF loop, of i] i obtain cs' bs' where
      box: "child_box (of_nat i) 0 (center nt) (bounds nt) = Returns (cs', bs')" and
      c: "chl ! i = Some (NTree cs' bs' None None 0)"
      by auto
    have "bs' ! j = bounds nt ! j / 2 \<and>
          cs' ! j = (if bit i j then center nt ! j + bs' ! j else center nt ! j - bs' ! j)"
      if j: "j < N nt" for j
    proof -
      from j assms(2) have j63: "j < 63" by simp
      then have "hasBit (of_nat i) j = bit i j"
        by (simp add: hasBit_bit bit_simps)
      with child_box_nth [OF box, of j] j show ?thesis
        by (simp add: N_def)
    qed
    with child_box_length [OF box] c show ?thesis
      by (simp add: N_def)
  qed
  with nt1 len sz show ?thesis by auto
qed

lemma target_index:
  assumes "target_loop 0 cs xs 0 = Returns t" and "length cs \<le> 62"
  shows "\<not> t <s 0 \<and> unat t < 2 ^ length cs \<and> (\<forall>j < length cs. bit (unat t) j = (xs ! j > cs ! j))"
proof -
  have b: "bit t k = (k < length cs \<and> xs ! k > cs ! k)" for k
    using target_loop_bit [OF assms(1), of k] assms(2) by simp
  have "\<not> bit t (LENGTH(64) - Suc 0)"
    using assms(2) by (simp add: b)
  then have "\<not> sint t < 0"
    by (simp only: bit_last_iff not_False_eq_True)
  then have s: "\<not> t <s 0"
    by (simp add: word_sless_alt)
  have "take_bit (length cs) (unat t) = unat t"
    by (rule bit_eqI) (auto simp: bit_simps b)
  then have u: "unat t < 2 ^ length cs"
    by (simp add: take_bit_nat_eq_self_iff)
  have "bit (unat t) j = (xs ! j > cs ! j)" if "j < length cs" for j
    using that by (simp add: bit_simps b)
  with s u show ?thesis by blast
qed

lemma target_loop_Returns:
  "length xs = length cs \<Longrightarrow> \<exists>r. target_loop j cs xs t = Returns r"
  by (induction j cs xs t rule: target_loop.induct) simp_all

section \<open>Invariants of trees built by successful insertions\<close>

lemma built_invariant:
  "built nt qs \<Longrightarrow>
     wf_node (N nt) nt \<and> mset (pts nt) = mset qs \<and> count nt = of_nat (length qs) \<and>
     (\<forall>q\<in>set qs. Contains nt (Some q) = Returns (Inr True))"
proof (induction rule: built.induct)
  case (built_New cs bs nt)
  then show ?case
    by (simp add: New_Inr N_def)
next
  case (built_Add nt qs fuel q nt')
  from Add_success [OF built_Add.hyps(2), of "N nt"] built_Add.IH have
    s: "center nt' = center nt" "bounds nt' = bounds nt" "count nt' = count nt + 1"
      "mset (pts nt') = add_mset q (mset (pts nt))" "wf_node (N nt) nt'"
    by auto
  from Add_success_cases [OF built_Add.hyps(2)] have c: "Contains nt (Some q) = Returns (Inr True)"
    by simp
  have n: "N nt' = N nt"
    using s(1) by (simp add: N_def)
  have same: "Contains nt' pt = Contains nt pt" for pt
    using s(1,2) by (rule Contains_same_box)
  from s n c built_Add.IH show ?case
    by (simp add: same del: Contains.simps)
qed

lemma built_distinct:
  "built nt qs \<Longrightarrow> addressed nt \<and> distinct (map Coords qs)"
proof (induction rule: built.induct)
  case (built_New cs bs nt)
  then show ?case
    by (simp add: New_Inr)
next
  case (built_Add nt qs fuel q nt')
  from built_invariant [OF built_Add.hyps(1)] have "set (pts nt) = set qs"
    by (metis set_mset_mset)
  with Add_new_coordinates [OF _ built_Add.hyps(2)] built_Add.IH have
    "\<forall>q0\<in>set qs. Coords q0 \<noteq> Coords q"
    by blast
  with built_Add.IH Add_addressed [OF _ built_Add.hyps(2)] show ?case
    by auto
qed

lemma bound_loop_Returns:
  "length bs = length cs \<Longrightarrow>
   \<exists>lo hi. bound_loop cs bs = Returns (lo, hi) \<and> length lo = length cs \<and> length hi = length cs"
proof (induction cs bs rule: bound_loop.induct)
  case (3 c cs b bs)
  then show ?case by auto
qed simp_all

lemma contains_loop_in_box:
  "bound_loop cs bs = Returns (lo, hi) \<Longrightarrow> contains_loop cs bs xs = Returns True \<Longrightarrow>
   length xs = length cs \<Longrightarrow> in_box xs lo hi"
proof (induction cs bs xs arbitrary: lo hi rule: contains_loop.induct)
  case (2 c cs b bs x xs)
  then show ?case
    by (auto split: outcome.splits if_splits)
qed simp_all

section \<open>Search and count after successful insertions\<close>

lemma ex_New: "New [0, 0] [1, 1] = Inr ex_root"
  by code_simp

lemma ex_Add1: "Add 0 ex_root (Some ex_p1) = Returns (ex_leaf, None)"
  by code_simp

lemma ex_Add2: "Add 2 ex_leaf (Some ex_p2) = Returns (ex_tree, None)"
  by code_simp

lemma ex_built: "built ex_tree [ex_p1, ex_p2]"
  using built_Add [OF built_Add [OF built_New [OF ex_New] ex_Add1] ex_Add2] by simp

lemma ex_N: "N ex_tree = 2"
  by (simp add: N_def ex_tree_def)

text \<open>
  C1. For every tree produced from a constructed root by insertions that all returned nil,
  and every query pair of the tree's dimensionality with \<open>lower[i] \<le> upper[i]\<close> in every
  dimension, \<open>Search\<close> returns, without error, exactly the inserted points whose every
  coordinate lies in the closed interval \<open>[lower[i], upper[i]]\<close>: as multisets the result
  and the qualifying inserted points are equal, so no point is omitted, and no point
  occurs twice in the result.
\<close>

theorem Search_range_correct:
  assumes "built nt qs" and "length lower = N nt" and "length upper = N nt"
    and "\<forall>i<N nt. lower ! i \<le> upper ! i"
  shows "\<exists>found. Search nt lower upper = Returns (Inr found) \<and>
           mset found = mset (filter (\<lambda>q. in_box (Coords q) lower upper) qs) \<and>
           distinct found"
proof -
  from built_invariant [OF assms(1)] have w: "wf_node (N nt) nt" and m: "mset (pts nt) = mset qs"
    by simp_all
  from built_distinct [OF assms(1)] have "distinct qs"
    by (simp add: distinct_map)
  with mset_eq_imp_distinct_iff [OF m] have d: "distinct (pts nt)"
    by simp
  let ?P = "\<lambda>q. in_box (Coords q) lower upper"
  have "Search nt lower upper = Returns (Inr (filter ?P (pts nt)))"
    using w assms(2,3) by (rule Search_wf)
  moreover have "mset (filter ?P (pts nt)) = mset (filter ?P qs)"
    using m by (simp only: mset_filter)
  moreover have "distinct (filter ?P (pts nt))"
    using d by simp
  ultimately show ?thesis by blast
qed

theorem Search_range_correct_witness:
  "built ex_tree [ex_p1, ex_p2] \<and> length [-1, -1 :: real] = N ex_tree \<and>
   length [0, 0 :: real] = N ex_tree \<and>
   (\<exists>found. Search ex_tree [-1, -1] [0, 0] = Returns (Inr found) \<and> mset found = {#ex_p1#} \<and>
      distinct found)"
proof -
  have h2: "length [-1, -1 :: real] = N ex_tree" and h3: "length [0, 0 :: real] = N ex_tree"
    by (simp_all add: ex_N)
  have h4: "\<forall>i<N ex_tree. [-1, -1 :: real] ! i \<le> [0, 0] ! i"
    by (simp add: ex_N numeral_2_eq_2 All_less_Suc2)
  have f: "filter (\<lambda>q. in_box (Coords q) [-1, -1] [0, 0]) [ex_p1, ex_p2] = [ex_p1]"
    by (simp add: ex_p1_def ex_p2_def)
  from Search_range_correct [OF ex_built h2 h3 h4] f ex_built h2 h3 h4 show ?thesis
    by simp
qed



text \<open>
  C8. After M insertions into a freshly constructed root that all returned nil (and no
  other call of \<open>Add\<close>), \<open>Count\<close> of the root
  is M (M below \<open>2^64\<close>, the range of the counter), and \<open>Search\<close> over the root's whole
  covered volume, from \<open>center - bounds\<close> to \<open>center + bounds\<close> as \<open>BoundPoints\<close> gives
  them, returns exactly the M inserted points.
\<close>

theorem count_and_full_search:
  assumes "built nt qs" and "length qs < 2 ^ 64"
  shows "unat (Count nt) = length qs \<and>
         (\<exists>lo hi found. BoundPoints nt = Returns (lo, hi) \<and>
            Search nt lo hi = Returns (Inr found) \<and> mset found = mset qs \<and>
            length found = length qs)"
proof -
  from built_invariant [OF assms(1)] have w: "wf_node (N nt) nt" and m: "mset (pts nt) = mset qs"
    and k: "count nt = of_nat (length qs)"
    and c: "\<forall>q\<in>set qs. Contains nt (Some q) = Returns (Inr True)"
    by simp_all
  from assms(2) k have cnt: "unat (Count nt) = length qs"
    by (simp add: Count_def unat_of_nat)
  from wf_center [OF w] have len: "length (bounds nt) = length (center nt)"
    by (simp add: N_def)
  from bound_loop_Returns [OF len] obtain lo hi where
    b: "bound_loop (center nt) (bounds nt) = Returns (lo, hi)" and
    l: "length lo = N nt" "length hi = N nt"
    by (auto simp: N_def)
  have "in_box (Coords q) lo hi" if "q \<in> set (pts nt)" for q
  proof -
    from that m have "q \<in> set qs" by (metis set_mset_mset)
    with c have "Contains nt (Some q) = Returns (Inr True)" by blast
    from Contains_True_Some [OF this] show ?thesis
      using b by (auto simp: N_def intro: contains_loop_in_box)
  qed
  then have "filter (\<lambda>q. in_box (Coords q) lo hi) (pts nt) = pts nt"
    by (simp add: filter_id_conv)
  with Search_wf [OF w l] have s: "Search nt lo hi = Returns (Inr (pts nt))" by simp
  from m have "length (pts nt) = length qs"
    by (metis size_mset)
  with cnt b s m show ?thesis
    by (auto simp: BoundPoints_def)
qed

theorem count_and_full_search_witness:
  "built ex_tree [ex_p1, ex_p2] \<and> length [ex_p1, ex_p2] < 2 ^ 64 \<and> unat (Count ex_tree) = 2 \<and>
   (\<exists>lo hi found. BoundPoints ex_tree = Returns (lo, hi) \<and>
      Search ex_tree lo hi = Returns (Inr found) \<and> length found = 2)"
proof -
  have h: "length [ex_p1, ex_p2] < 2 ^ 64" by simp
  from count_and_full_search [OF ex_built h] ex_built show ?thesis
    by auto
qed

section \<open>Counts over insertions\<close>

lemma ex_split_eval: "split ex_leaf = Returns (ex_split, None)"
  by code_simp

text \<open>
  C3, as stated, fails on the code: the split step of \<open>Add\<close> (the occupied-leaf branch up
  to its \<open>Unlock\<close>) executes \<open>nt.count--\<close>. On the example leaf holding one point the
  count goes from 1 to 0.
\<close>

theorem split_lowers_count:
  "split ex_leaf = Returns (ex_split, None) \<and> count ex_split < count ex_leaf"
  using ex_split_eval by (simp add: ex_split_def ex_leaf_def)

lemma node_at_count_step:
  "Add fuel nt pt = Returns (nt', None) \<Longrightarrow> node_at nt path = Some m \<Longrightarrow>
   \<exists>m'. node_at nt' path = Some m' \<and> (count m' = count m \<or> count m' = count m + 1)"
proof (induction fuel arbitrary: nt pt nt' path m rule: less_induct)
  case (less fuel)
  from Add_success [OF less.prems(1), of 0] have root: "count nt' = count nt + 1"
    by simp
  show ?case
  proof (cases path)
    case Nil
    with less.prems(2) root show ?thesis by simp
  next
    case (Cons k rest)
    from less.prems(1) show ?thesis
    proof (cases rule: Add_success_elim)
      case leaf
      with Cons less.prems(2) show ?thesis by simp
    next
      case (internal ch t child f child')
      from Cons less.prems(2) internal(1) obtain c where
        k: "k < length ch" "ch ! k = Some c" "node_at c rest = Some m"
        by (auto split: if_splits option.splits)
      show ?thesis
      proof (cases "k = unat t")
        case True
        with k internal have "c = child" by simp
        with less.IH [of f child pt child' rest m] internal k obtain m' where
          "node_at child' rest = Some m'" "count m' = count m \<or> count m' = count m + 1"
          by auto
        with True Cons internal k show ?thesis by simp
      next
        case False
        with Cons internal k show ?thesis by simp
      qed
    next
      case (split curP nt1 f nt2)
      with Cons less.prems(2) show ?thesis by simp
    qed
  qed
qed

text \<open>
  C3, amended. Counts are unsigned 64-bit values. Over every insertion that returns nil,
  the count of the node it is called on goes up by exactly one, and the count of every
  node that was in the tree before stays the same or goes up by exactly one (modulo
  \<open>2^64\<close>). Inside an insertion, the split step lowers the node's count by one, before the
  stored point is inserted again.
\<close>

theorem count_over_insertion:
  "(Add fuel nt pt = Returns (nt', None) \<longrightarrow>
      count nt' = count nt + 1 \<and>
      (\<forall>path m. node_at nt path = Some m \<longrightarrow>
         (\<exists>m'. node_at nt' path = Some m' \<and> (count m' = count m \<or> count m' = count m + 1))))
   \<and> (split nt = Returns (nt1, None) \<longrightarrow> count nt1 = count nt - 1)"
proof (intro conjI impI allI)
  assume "Add fuel nt pt = Returns (nt', None)"
  from Add_success [OF this, of 0] show "count nt' = count nt + 1" by simp
next
  fix path m
  assume "Add fuel nt pt = Returns (nt', None)" and "node_at nt path = Some m"
  then show "\<exists>m'. node_at nt' path = Some m' \<and> (count m' = count m \<or> count m' = count m + 1)"
    by (rule node_at_count_step)
next
  assume "split nt = Returns (nt1, None)"
  from split_result [OF this] show "count nt1 = count nt - 1" by auto
qed

theorem count_over_insertion_witness:
  "Add 2 ex_leaf (Some ex_p2) = Returns (ex_tree, None) \<and> split ex_leaf = Returns (ex_split, None) \<and>
   count ex_tree = count ex_leaf + 1 \<and> count ex_split = count ex_leaf - 1 \<and>
   (\<exists>m'. node_at ex_tree [] = Some m' \<and> (count m' = count ex_leaf \<or> count m' = count ex_leaf + 1))"
proof -
  have n: "node_at ex_leaf [] = Some ex_leaf" by simp
  from count_over_insertion [of 2 ex_leaf "Some ex_p2" ex_tree ex_split]
    ex_Add2 ex_split_eval n show ?thesis
    by blast
qed

section \<open>A construction error during a split\<close>

text \<open>The split allocates at least one child, whatever the dimensionality.\<close>

lemma split_size_positive: "0 < unat (ModPowUint64 2 e MaxInt)"
proof -
  let ?M = "2 ^ 63 - 1 :: int"
  let ?k = "(2::int) ^ unat e mod ?M"
  have "coprime ((2::int) ^ unat e) ?M"
    by (simp add: coprime_left_2_iff_odd)
  then have "\<not> ?M dvd 2 ^ unat e"
    using coprime_common_divisor [of "2 ^ unat e" ?M ?M] by auto
  then have "?k \<noteq> 0"
    by (simp add: dvd_eq_mod_eq_0)
  moreover have "0 \<le> ?k"
    by simp
  ultimately have k0: "0 < ?k"
    by linarith
  have "?k < ?M"
    by simp
  also have "?M < 2 ^ 64"
    by simp
  finally have k1: "?k < 2 ^ 64" .
  note k = k0 k1
  then have "take_bit LENGTH(64) ?k = ?k"
    by (intro take_bit_int_eq_self) simp_all
  with k have "0 < nat (take_bit LENGTH(64) ?k)"
    by simp
  then have "0 < unat (word_of_int ?k :: 64 word)"
    by (simp only: unsigned_of_int of_nat_id)
  moreover have "uint (2 :: 64 word) = 2" "uint (MaxInt :: 64 word) = ?M"
    by (simp_all add: MaxInt_def)
  ultimately show ?thesis
    by (simp only: ModPowUint64_def)
qed

text \<open>
  C4. When \<open>New\<close> fails for a child during a split (it fails for child 0 as soon as it fails
  for any, the half-extents being the same for all), \<open>Add\<close> returns that error, but the
  node is not as it was before the call: \<open>nt.children\<close> has already been assigned the new
  slice, whose entries are all still nil, while the node keeps its point. No later \<open>Search\<close>
  on that node returns a result: with the data alone, as here, it stops at a nil child or
  at the dimension test; in the running program it first waits for the node's write lock,
  which this path of \<open>Add\<close> never releases.
\<close>

theorem failed_split_mutates:
  assumes "Contains nt pt = Returns (Inr True)"
    and "children nt = None" and "p nt = Some curP"
    and "child_box 0 0 (center nt) (bounds nt) = Returns (cs, bs)"
    and "New cs bs = Inl e"
  shows "\<exists>chl. Add fuel nt pt =
            Returns (NTree (center nt) (bounds nt) (Some curP) (Some chl) (count nt), Some e) \<and>
          chl \<noteq> [] \<and> (\<forall>c\<in>set chl. c = None) \<and>
          NTree (center nt) (bounds nt) (Some curP) (Some chl) (count nt) \<noteq> nt \<and>
          Search (NTree (center nt) (bounds nt) (Some curP) (Some chl) (count nt)) p1 p2
            \<noteq> Returns (Inr found)"
proof -
  define sz where "sz = unat (ModPowUint64 2 (of_nat (N nt)) MaxInt)"
  have "0 < sz"
    unfolding sz_def by (rule split_size_positive)
  then obtain m where m: "sz = Suc m"
    by (cases sz) simp_all
  have upt: "[0..<sz] = 0 # [Suc 0..<sz]"
    using \<open>0 < sz\<close> by (simp add: upt_conv_Cons)
  let ?chl = "replicate sz (None :: NTree option)"
  let ?nt' = "NTree (center nt) (bounds nt) (Some curP) (Some ?chl) (count nt)"
  have loop: "split_loop nt [0..<sz] ?chl = Returns (?chl, Some e)"
    using assms(4,5) by (simp add: upt)
  have sp: "split nt = Returns (?nt', Some e)"
    using loop assms(3) by (simp add: split_def sz_def [symmetric] Let_def)
  have add: "Add fuel nt pt = Returns (?nt', Some e)"
    using assms(1,2,3) sp by (subst Add.simps) simp
  have ne: "?nt' \<noteq> nt"
    using assms(2) by (cases nt) auto
  have "Search ?nt' p1 p2 = Returns (Inl SearchDimension) \<or> Search ?nt' p1 p2 = Panics"
    by (simp add: m)
  then have s: "Search ?nt' p1 p2 \<noteq> Returns (Inr found)"
    by auto
  from add ne s \<open>0 < sz\<close> show ?thesis
    by (intro exI [of _ ?chl]) auto
qed

theorem failed_split_mutates_witness:
  "Add 1 ex_flat (Some (Point [0] None)) = Returns (ex_flat_failed, Some (BoundingSize 0)) \<and>
   ex_flat_failed \<noteq> ex_flat \<and> Search ex_flat_failed [-1] [1] = Panics"
proof -
  have h: "Contains ex_flat (Some (Point [0] None)) = Returns (Inr True)"
    "children ex_flat = None" "p ex_flat = Some (Point [0] None)"
    "child_box 0 0 (center ex_flat) (bounds ex_flat) = Returns ([0], [0])"
    "New [0] [0] = Inl (BoundingSize 0)"
    by code_simp+
  have e: "Add 1 ex_flat (Some (Point [0] None)) = Returns (ex_flat_failed, Some (BoundingSize 0))"
    "Search ex_flat_failed [-1] [1] = Panics"
    by code_simp+
  from failed_split_mutates [OF h, of 1 "[-1]" "[1]" "[]"] e show ?thesis
    by auto
qed

section \<open>The number of children at 63 dimensions\<close>

lemma hasBit_zero: "hasBit 0 j = False"
  by (simp add: hasBit_def)

lemma child_box_zero:
  "length bs = length cs \<Longrightarrow>
   child_box 0 j cs bs = Returns (map2 (\<lambda>c b. c - b / 2) cs bs, map (\<lambda>b. b / 2) bs)"
proof (induction cs arbitrary: bs j)
  case Nil
  then show ?case by simp
next
  case (Cons c cs)
  then obtain b bs' where "bs = b # bs'" "length bs' = length cs"
    by (cases bs) auto
  with Cons.IH [of bs' "Suc j"] show ?case
    by (simp add: hasBit_zero)
qed

lemma split_size_63: "unat (ModPowUint64 2 63 MaxInt) = 1"
  by (simp add: ModPowUint64_def MaxInt_def)

lemma ex_leaf63_split: "split ex_leaf63 = Returns (ex_split63, None)"
proof -
  have n: "N ex_leaf63 = 63"
    by (simp add: N_def ex_leaf63_def)
  have box: "child_box (of_nat 0) 0 (center ex_leaf63) (bounds ex_leaf63)
               = Returns (replicate 63 (-1/2), replicate 63 (1/2))"
    by (simp add: child_box_zero ex_leaf63_def zip_replicate)
  have new: "New (replicate 63 (-1/2)) (replicate 63 (1/2))
               = Inr (NTree (replicate 63 (-1/2)) (replicate 63 (1/2)) None None 0)"
    by (simp add: New_Inr)
  have loop: "split_loop ex_leaf63 [0] [None]
                = Returns ([Some (NTree (replicate 63 (-1/2)) (replicate 63 (1/2)) None None 0)], None)"
    using box new by simp
  have "split ex_leaf63 =
     Returns (NTree (center ex_leaf63) (bounds ex_leaf63) None
       (Some [Some (NTree (replicate 63 (-1/2)) (replicate 63 (1/2)) None None 0)])
       (count ex_leaf63 - 1), None)"
    by (simp add: split_def n split_size_63 loop del: split_loop.simps)
  then show ?thesis
    by (simp add: ex_leaf63_def ex_split63_def)
qed

lemma contains_replicate:
  "contains_loop (replicate n c) (replicate n b) (replicate n x) = Returns (n = 0 \<or> (c - b \<le> x \<and> x \<le> c + b))"
  by (induction n) auto

lemma target_zero:
  assumes "target_loop 0 cs xs 0 = Returns t" and "length cs \<le> 64"
    and "\<forall>j<length cs. xs ! j \<le> cs ! j"
  shows "t = 0"
proof (rule bit_eqI)
  fix k
  from target_loop_bit [OF assms(1), of k] assms(2,3) show "bit t k = bit (0 :: 64 word) k"
    by (auto simp: not_less)
qed

lemma target_nonzero:
  assumes "target_loop 0 cs xs 0 = Returns t" and "length cs \<le> 64"
    and "0 < length cs" and "xs ! 0 > cs ! 0"
  shows "0 < unat t"
proof -
  from target_loop_bit [OF assms(1), of 0] assms(2,3,4) have "bit t 0"
    by simp
  then have "t \<noteq> 0"
    by auto
  then show ?thesis
    by (simp add: unat_gt_0)
qed

lemma ex_Add63_first: "Add 1 ex_split63 (Some (Point (replicate 63 (-1/2)) None)) = Returns (ex_tree63, None)"
proof -
  let ?q = "Point (replicate 63 (-1/2)) None"
  let ?child = "NTree (replicate 63 (-1/2)) (replicate 63 (1/2)) None None 0"
  have c: "Contains ex_split63 (Some ?q) = Returns (Inr True)"
    by (simp add: ex_split63_def N_def contains_replicate)
  obtain t where t: "target_loop 0 (replicate 63 0) (replicate 63 (-1/2)) 0 = Returns t"
    using target_loop_Returns [of "replicate 63 (-1/2)" "replicate 63 0" 0 0] by auto
  from target_zero [OF t] have t0: "t = 0"
    by simp
  have cc: "Contains ?child (Some ?q) = Returns (Inr True)"
    by (simp add: N_def contains_replicate)
  have leaf: "Add 0 ?child (Some ?q) = Returns (NTree (replicate 63 (-1/2)) (replicate 63 (1/2)) (Some ?q) None 1, None)"
    using cc by (subst Add.simps) simp
  show ?thesis
    using c t t0 leaf by (subst Add.simps) (simp add: ex_split63_def ex_tree63_def)
qed

lemma ex_Add63_second: "Add 1 ex_tree63 (Some ex_p63) = Panics"
proof -
  have c: "Contains ex_tree63 (Some ex_p63) = Returns (Inr True)"
    by (simp add: ex_tree63_def ex_p63_def N_def contains_replicate)
  obtain t where t: "target_loop 0 (replicate 63 0) (replicate 63 (1/2)) 0 = Returns t"
    using target_loop_Returns [of "replicate 63 (1/2)" "replicate 63 0" 0 0] by auto
  from target_nonzero [OF t] have "0 < unat t"
    by simp
  then have "t <s 0 \<or> length [Some (NTree (replicate 63 (-1/2)) (replicate 63 (1/2))
              (Some (Point (replicate 63 (-1/2)) None)) None 1)] \<le> unat t"
    by simp
  then show ?thesis
    using c t by (subst Add.simps) (simp add: ex_tree63_def ex_p63_def)
qed

text \<open>
  C7. At 63 dimensions, which \<open>New\<close> accepts, the split computes its number of children as
  \<open>2^63 mod (2^63 - 1) = 1\<close>: one child is created, not \<open>2^63\<close>. The addressing loop still
  computes indices up to \<open>2^63 - 1\<close>: inserting the in-bounds point with all coordinates
  1/2 into the leaf that holds the point with all coordinates -1/2 indexes the child slice
  out of range and panics.
\<close>

theorem split_63_dimensions:
  "N ex_leaf63 = 63 \<and> split ex_leaf63 = Returns (ex_split63, None) \<and>
   children ex_split63 = Some [Some (NTree (replicate 63 (-1/2)) (replicate 63 (1/2)) None None 0)] \<and>
   Contains ex_leaf63 (Some ex_p63) = Returns (Inr True) \<and>
   Add 2 ex_leaf63 (Some ex_p63) = Panics"
proof -
  have n: "N ex_leaf63 = 63"
    by (simp add: N_def ex_leaf63_def)
  have c: "Contains ex_leaf63 (Some ex_p63) = Returns (Inr True)"
    by (simp add: ex_leaf63_def ex_p63_def N_def contains_replicate)
  have "Add 2 ex_leaf63 (Some ex_p63) = Panics"
    using c ex_leaf63_split ex_Add63_first ex_Add63_second
    by (subst Add.simps) (simp add: ex_leaf63_def numeral_2_eq_2)
  with n c ex_leaf63_split show ?thesis
    by (simp add: ex_split63_def)
qed

section \<open>Pruning and locking\<close>

text \<open>On a well-formed tree the nodes \<open>Search\<close> enters do not depend on the query.\<close>

lemma Search_locks_any_query_aux:
  "wf_node n nt \<longrightarrow> length p1 = n \<longrightarrow> length p2 = n \<longrightarrow> length q1 = n \<longrightarrow> length q2 = n \<longrightarrow>
     Search_locks path nt p1 p2 = Search_locks path nt q1 q2"
  "wf_children n chl \<longrightarrow> length p1' = n \<longrightarrow> length p2' = n \<longrightarrow> length q1 = n \<longrightarrow> length q2 = n \<longrightarrow>
     Search_children_locks path' i chl p1' p2' = Search_children_locks path' i chl q1 q2"
proof (induction path nt p1 p2 and path' i chl p1' p2' rule: Search_locks_Search_children_locks.induct)
  case (1 path cs bs pt ch k p1 p2)
  show ?case
  proof (intro impI)
    assume w: "wf_node n (NTree cs bs pt ch k)" and l: "length p1 = n" "length p2 = n"
      "length q1 = n" "length q2 = n"
    show "Search_locks path (NTree cs bs pt ch k) p1 p2 = Search_locks path (NTree cs bs pt ch k) q1 q2"
    proof (cases ch)
      case None
      with w l show ?thesis by (cases pt) simp_all
    next
      case (Some chl)
      with w have "pt = None" "wf_children n chl" "length cs = n"
        by (auto split: option.splits)
      with Some l "1.IH" [of chl] show ?thesis by simp
    qed
  qed
next
  case (2 path i p1 p2)
  show ?case by simp
next
  case (3 path i child rest p1 p2)
  show ?case
  proof (intro impI)
    assume w: "wf_children n (child # rest)" and l: "length p1 = n" "length p2 = n"
      "length q1 = n" "length q2 = n"
    from w obtain c where c: "child = Some c" "wf_node n c" "wf_children n rest"
      by (auto split: option.splits)
    have sk: "skip_loop (center c) (bounds c) p1 p2 = Returns ()"
      "skip_loop (center c) (bounds c) q1 q2 = Returns ()"
      using wf_center [OF c(2)] l by (simp_all add: skip_loop_Returns)
    have s: "Search c p1 p2 = Returns (Inr (filter (\<lambda>q. in_box (Coords q) p1 p2) (pts c)))"
      "Search c q1 q2 = Returns (Inr (filter (\<lambda>q. in_box (Coords q) q1 q2) (pts c)))"
      using c(2) l by (simp_all add: Search_wf)
    from "3.IH"(1) [OF c(1) sk(1)] c l have
      a: "Search_locks (path @ [i]) c p1 p2 = Search_locks (path @ [i]) c q1 q2"
      by simp
    from "3.IH"(2) [OF c(1) sk(1) s(1) refl] c l have
      b: "Search_children_locks path (Suc i) rest p1 p2 = Search_children_locks path (Suc i) rest q1 q2"
      by simp
    show "Search_children_locks path i (child # rest) p1 p2 =
            Search_children_locks path i (child # rest) q1 q2"
      using c sk s a b by simp
  qed
qed

lemma Search_locks_any_query:
  "wf_node n nt \<Longrightarrow> length p1 = n \<Longrightarrow> length p2 = n \<Longrightarrow> length q1 = n \<Longrightarrow> length q2 = n \<Longrightarrow>
   Search_locks path nt p1 p2 = Search_locks path nt q1 q2"
  using Search_locks_any_query_aux(1) [of n nt p1 p2 q1 q2 path] by simp

text \<open>
  C2. On the example tree, child 0 covers \<open>[-1,0] \<times> [-1,0]\<close>, which lies outside the query
  box \<open>[1/4,1] \<times> [1/4,1]\<close> (the source's own test holds for it in dimension 0), and so do
  children 1 and 2. \<open>Search\<close> nevertheless enters every child: the mutex of each of the
  four children is read-locked.
\<close>

theorem Search_visits_disjoint_children:
  "node_at ex_tree [0] = Some (NTree [-1/2, -1/2] [1/2, 1/2] (Some ex_p1) None 1) \<and>
   outside_dim (-1/2) (1/2) (1/4) 1 \<and>
   Search_locks [] ex_tree [1/4, 1/4] [1, 1] =
     [RLock [], RLock [0], RUnlock [0], RLock [1], RUnlock [1], RLock [2], RUnlock [2],
      RLock [3], RUnlock [3], RUnlock []] \<and>
   Search ex_tree [1/4, 1/4] [1, 1] = Returns (Inr [ex_p2])"
  by code_simp

text \<open>
  C5, as stated, fails on the code: searching the example tree, and inserting a point into
  it, each hold two locks at once.
\<close>

theorem two_locks_held:
  "1 < max_held 0 (Search_locks [] ex_tree [-1, -1] [1, 1]) \<and>
   1 < max_held 0 (Add_locks 1 [] ex_tree (Some (Point [1/4, -1/4] None)))"
  by code_simp

lemma max_held_ge: "h \<le> max_held h es"
  by (cases es) simp_all

lemma Search_locks_head:
  "\<exists>es. Search_locks path nt p1 p2 = RLock path # es"
  by (cases nt) simp

lemma Add_locks_head:
  "\<exists>es. Add_locks fuel path nt pt = RLock path # RUnlock path # es"
  by (subst Add_locks.simps) simp

text \<open>
  C5, amended. \<open>Search\<close> on a node with children keeps the node's read lock while it
  recurses into them, and an insertion that goes through a node with children keeps that
  node's write lock while it recurses into the addressed child: each holds at least two
  locks at once. Only the split branch releases the node's lock before it recurses, and
  then it recurses twice, on the same node.
\<close>

theorem lock_nesting:
  "(wf_node n nt \<and> length p1 = n \<and> length p2 = n \<and> children nt = Some (c # rest) \<longrightarrow>
      2 \<le> max_held 0 (Search_locks path nt p1 p2))
   \<and> (Add fuel nt pt = Returns (nt', None) \<and> children nt = Some ch \<longrightarrow>
      2 \<le> max_held 0 (Add_locks fuel path nt pt))
   \<and> (Add fuel nt pt = Returns (nt', None) \<and> children nt = None \<and> p nt = Some curP \<longrightarrow>
      (\<exists>f nt1 nt2. fuel = Suc f \<and> split nt = Returns (nt1, None) \<and>
         Add f nt1 (Some curP) = Returns (nt2, None) \<and>
         Add_locks fuel path nt pt =
           [RLock path, RUnlock path, Lock path, Unlock path] @
           Add_locks f path nt1 (Some curP) @ Add_locks f path nt2 pt))"
proof (intro conjI impI)
  assume a: "wf_node n nt \<and> length p1 = n \<and> length p2 = n \<and> children nt = Some (c # rest)"
  obtain cs bs pt' k where nt: "nt = NTree cs bs pt' (Some (c # rest)) k"
    using a by (cases nt) auto
  with a obtain c0 where c0: "c = Some c0" "wf_node n c0" and pn: "pt' = None" and
    len: "length cs = n"
    by (auto split: option.splits)
  from wf_center [OF c0(2)] a have sk: "skip_loop (center c0) (bounds c0) p1 p2 = Returns ()"
    by (simp add: skip_loop_Returns)
  from Search_locks_head obtain es where es: "Search_locks (path @ [0]) c0 p1 p2 = RLock (path @ [0]) # es"
    by blast
  have "\<exists>es'. Search_locks path nt p1 p2 = RLock path # RLock (path @ [0]) # es'"
    using nt c0 pn len a sk es by simp
  then obtain es' where "Search_locks path nt p1 p2 = RLock path # RLock (path @ [0]) # es'"
    by blast
  then show "2 \<le> max_held 0 (Search_locks path nt p1 p2)"
    using max_held_ge [of "Suc (Suc 0)" es'] by (simp add: numeral_2_eq_2)
next
  assume a: "Add fuel nt pt = Returns (nt', None) \<and> children nt = Some ch"
  from Add_success_cases [of fuel nt pt nt'] a obtain q t child f child' where
    c: "Contains nt pt = Returns (Inr True)" "pt = Some q"
       "target_loop 0 (center nt) (Coords q) 0 = Returns t" "\<not> t <s 0" "unat t < length ch"
       "ch ! unat t = Some child" "fuel = Suc f" "Add f child pt = Returns (child', None)"
    by auto
  from Add_locks_head obtain es where
    es: "Add_locks f (path @ [unat t]) child pt = RLock (path @ [unat t]) # RUnlock (path @ [unat t]) # es"
    by blast
  have "Add_locks fuel path nt pt =
          RLock path # RUnlock path # Lock path # RLock (path @ [unat t]) #
          RUnlock (path @ [unat t]) # es @ [Unlock path]"
    using a c es by (subst Add_locks.simps) simp
  then show "2 \<le> max_held 0 (Add_locks fuel path nt pt)"
    by simp
next
  assume a: "Add fuel nt pt = Returns (nt', None) \<and> children nt = None \<and> p nt = Some curP"
  from Add_success_cases [of fuel nt pt nt'] a obtain nt1 f nt2 where
    c: "Contains nt pt = Returns (Inr True)" "split nt = Returns (nt1, None)" "fuel = Suc f"
       "Add f nt1 (Some curP) = Returns (nt2, None)"
    by auto
  have "Add_locks fuel path nt pt =
          [RLock path, RUnlock path, Lock path, Unlock path] @
          Add_locks f path nt1 (Some curP) @ Add_locks f path nt2 pt"
    using a c by (subst Add_locks.simps) simp
  with c show "\<exists>f nt1 nt2. fuel = Suc f \<and> split nt = Returns (nt1, None) \<and>
         Add f nt1 (Some curP) = Returns (nt2, None) \<and>
         Add_locks fuel path nt pt =
           [RLock path, RUnlock path, Lock path, Unlock path] @
           Add_locks f path nt1 (Some curP) @ Add_locks f path nt2 pt"
    by blast
qed

lemma ex_Add3: "Add 1 ex_tree (Some ex_p3) = Returns (ex_tree3, None)"
  by code_simp

theorem lock_nesting_witness:
  "2 \<le> max_held 0 (Search_locks [] ex_tree [-1, -1] [1, 1]) \<and>
   2 \<le> max_held 0 (Add_locks 1 [] ex_tree (Some ex_p3)) \<and>
   (\<exists>f nt1 nt2. 2 = Suc f \<and> split ex_leaf = Returns (nt1, None) \<and>
      Add f nt1 (Some ex_p1) = Returns (nt2, None) \<and>
      Add_locks 2 [] ex_leaf (Some ex_p2) =
        [RLock [], RUnlock [], Lock [], Unlock []] @
        Add_locks f [] nt1 (Some ex_p1) @ Add_locks f [] nt2 (Some ex_p2))"
proof -
  have w: "wf_node 2 ex_tree"
    by (simp add: ex_tree_def ex_p1_def ex_p2_def)
  have c: "children ex_tree =
      Some (Some (NTree [-1/2, -1/2] [1/2, 1/2] (Some ex_p1) None 1) #
            [Some (NTree [1/2, -1/2] [1/2, 1/2] None None 0),
             Some (NTree [-1/2, 1/2] [1/2, 1/2] None None 0),
             Some (NTree [1/2, 1/2] [1/2, 1/2] (Some ex_p2) None 1)])"
    by (simp add: ex_tree_def)
  have l: "children ex_leaf = None" "p ex_leaf = Some ex_p1"
    by (simp_all add: ex_leaf_def)
  from lock_nesting [of 2 ex_tree "[-1, -1]" "[1, 1]" _ _ "[]" 1 "Some ex_p3" ex_tree3]
    w c ex_Add3
  have a: "2 \<le> max_held 0 (Search_locks [] ex_tree [-1, -1] [1, 1])"
    and b: "2 \<le> max_held 0 (Add_locks 1 [] ex_tree (Some ex_p3))"
    by simp_all
  from lock_nesting [of _ ex_leaf _ _ _ _ "[]" 2 "Some ex_p2" ex_tree _ ex_p1] ex_Add2 l
  have "\<exists>f nt1 nt2. 2 = Suc f \<and> split ex_leaf = Returns (nt1, None) \<and>
      Add f nt1 (Some ex_p1) = Returns (nt2, None) \<and>
      Add_locks 2 [] ex_leaf (Some ex_p2) =
        [RLock [], RUnlock [], Lock [], Unlock []] @
        Add_locks f [] nt1 (Some ex_p1) @ Add_locks f [] nt2 (Some ex_p2)"
    by simp
  with a b show ?thesis by blast
qed

end
